theory Spec2Isabelle
  imports Complex_Main "HOL-Library.Sublist"
begin

section \<open>Python values shared by the whole development\<close>

text \<open>
  Exceptions are values. Only the exception classes that the modelled functions can
  raise are listed; \<open>HTTPException\<close> carries its status code.
\<close>

datatype py_error =
    IndexError
  | KeyError
  | OverflowError
  | RuntimeError
  | HTTPException nat

text \<open>
  \<open>xs[i]\<close> on a Python list: a negative index counts from the end, anything outside
  the list raises \<open>IndexError\<close>.
\<close>

definition py_getitem :: "'a list \<Rightarrow> int \<Rightarrow> py_error + 'a" where
  "py_getitem xs i =
     (if 0 \<le> i \<and> i < int (length xs) then Inr (xs ! nat i)
      else if i < 0 \<and> - int (length xs) \<le> i then Inr (xs ! nat (int (length xs) + i))
      else Inl IndexError)"

text \<open>
  Python floats are modelled as real numbers: arithmetic is exact, and the values
  \<open>inf\<close> and \<open>nan\<close> are outside the type. Python's \<open>round\<close> on a float rounds
  to the nearest integer and a tie to the even neighbour.
\<close>

definition py_round :: "real \<Rightarrow> int" where
  "py_round x =
     (let f = \<lfloor>x\<rfloor>; d = x - of_int f
      in if d < 1 / 2 then f
         else if 1 / 2 < d then f + 1
         else if even f then f else f + 1)"

text \<open>
  A \<open>datetime.date\<close> is its proleptic Gregorian ordinal (day 1 is 0001-01-01, the last
  day 9999-12-31 has ordinal 3652059). \<open>date + timedelta(days=n)\<close> raises
  \<open>OverflowError\<close> when \<open>n\<close> is no legal \<open>timedelta\<close> or when the sum leaves the
  calendar. The ISO rendering of the date is not modelled.
\<close>

definition MAXORDINAL :: int where
  "MAXORDINAL = 3652059"

definition date_plus_days :: "int \<Rightarrow> int \<Rightarrow> py_error + int" where
  "date_plus_days today n =
     (if 999999999 < \<bar>n\<bar> then Inl OverflowError
      else if today + n < 1 \<or> MAXORDINAL < today + n then Inl OverflowError
      else Inr (today + n))"


section \<open>routers/quiz.py: the SM-2 scheduler\<close>

definition GRADE_QUALITY :: "int list" where
  "GRADE_QUALITY = [0, 2, 4, 5]"

definition MASTERY_DELTA :: "int \<rightharpoonup> real" where
  "MASTERY_DELTA = [0 \<mapsto> - (5 / 100), 1 \<mapsto> 0, 2 \<mapsto> 5 / 100, 3 \<mapsto> 10 / 100]"

text \<open>
  \<open>_compute_sm2(grade, repetitions, interval, difficulty)\<close>. The result is the tuple
  \<open>(new_reps, new_interval, new_difficulty, next_review)\<close>; \<open>today\<close> is what
  \<open>date.today()\<close> returns.
\<close>

definition compute_sm2 ::
  "int \<Rightarrow> int \<Rightarrow> int \<Rightarrow> int \<Rightarrow> real \<Rightarrow> py_error + (int \<times> int \<times> real \<times> int)" where
  "compute_sm2 today grade repetitions interval difficulty =
     (case py_getitem GRADE_QUALITY grade of
        Inl e \<Rightarrow> Inl e
      | Inr q \<Rightarrow>
          let new_interval =
                (if q < 3 then 1
                 else if repetitions = 0 then 1
                 else if repetitions = 1 then 6
                 else max 1 (py_round (of_int interval * (5 / 2 - difficulty * (12 / 10)))));
              new_reps = (if q < 3 then 0 else repetitions + 1);
              ef_delta = 1 / 10 - of_int (5 - q) * (8 / 100 + of_int (5 - q) * (2 / 100));
              new_difficulty = max (1 / 10) (min (9 / 10) (difficulty - ef_delta * (2 / 10)))
          in case date_plus_days today new_interval of
               Inl e \<Rightarrow> Inl e
             | Inr next_review \<Rightarrow> Inr (new_reps, new_interval, new_difficulty, next_review))"


section \<open>db/kuzu\_.py: concept mastery in the graph store\<close>

record Concept =
  concept_id :: string
  mastery :: real
  review_count :: int

record ExtractedFrom =
  ef_concept :: string
  ef_doc :: string
  ef_chunk_id :: string

record kuzu =
  concepts :: "Concept list"
  extracted_from :: "ExtractedFrom list"

text \<open>
  The first query of \<open>update_concept_mastery_from_chunk\<close>: one row
  \<open>(c.id, c.mastery, c.review_count)\<close> for every \<open>EXTRACTED_FROM\<close> edge with the given
  chunk id, joined with its concept node.
\<close>

definition mastery_rows :: "kuzu \<Rightarrow> string \<Rightarrow> (string \<times> real \<times> int) list" where
  "mastery_rows g chunk_id =
     concat (map (\<lambda>e. map (\<lambda>c. (concept_id c, mastery c, review_count c))
                         (filter (\<lambda>c. concept_id c = ef_concept e) (concepts g)))
                 (filter (\<lambda>e. ef_chunk_id e = chunk_id) (extracted_from g)))"

definition mastery_updates ::
  "(string \<times> real \<times> int) list \<Rightarrow> real \<Rightarrow> (string \<times> real \<times> int) list" where
  "mastery_updates rows delta =
     map (\<lambda>(cid, m, rc). (cid, max 0 (min 1 (m + delta)), rc + 1)) rows"

text \<open>\<open>MATCH (c:Concept) WHERE c.id = cid SET c.mastery = ..., c.review_count = ...\<close>\<close>

definition set_concept :: "string \<times> real \<times> int \<Rightarrow> Concept list \<Rightarrow> Concept list" where
  "set_concept u cs =
     (case u of (cid, m, rc) \<Rightarrow>
        map (\<lambda>c. if concept_id c = cid then c\<lparr>mastery := m, review_count := rc\<rparr> else c) cs)"

definition update_concept_mastery_from_chunk :: "kuzu \<Rightarrow> string \<Rightarrow> real \<Rightarrow> kuzu" where
  "update_concept_mastery_from_chunk g chunk_id delta =
     g\<lparr>concepts := foldl (\<lambda>cs u. set_concept u cs) (concepts g)
                        (mastery_updates (mastery_rows g chunk_id) delta)\<rparr>"


section \<open>routers/quiz.py: submitting a review\<close>

text \<open>
  A row of the \<open>flashcards\<close> table (the timestamps are left out). \<open>next_review\<close> is a
  date or absent.
\<close>

record Flashcard =
  card_id :: string
  document_id :: string
  chunk_id :: "string option"
  question :: string
  answer :: string
  difficulty :: real
  interval :: int
  repetitions :: int
  next_review :: "int option"

record ReviewResult =
  rr_id :: string
  rr_interval :: int
  rr_next_review :: int
  rr_repetitions :: int
  rr_difficulty :: real

text \<open>
  What a review request can touch: the flashcard table and the graph store.
  \<open>kuzu_up\<close> says whether the graph store answers; when it does not, the mastery
  update raises.
\<close>

record quiz_state =
  flashcards :: "Flashcard list"
  graph :: kuzu
  kuzu_up :: bool

definition get_flashcard :: "Flashcard list \<Rightarrow> string \<Rightarrow> Flashcard option" where
  "get_flashcard tbl cid = find (\<lambda>c. card_id c = cid) tbl"

definition update_flashcard_sm2 ::
  "Flashcard list \<Rightarrow> string \<Rightarrow> int \<Rightarrow> int \<Rightarrow> real \<Rightarrow> int \<Rightarrow> Flashcard list" where
  "update_flashcard_sm2 tbl cid reps ival diff nxt =
     map (\<lambda>c. if card_id c = cid
               then c\<lparr>repetitions := reps, interval := ival, difficulty := diff,
                      next_review := Some nxt\<rparr>
               else c) tbl"

text \<open>\<open>if card.chunk_id:\<close> holds for a string that is present and not empty.\<close>

definition truthy_str :: "string option \<Rightarrow> bool" where
  "truthy_str s = (case s of None \<Rightarrow> False | Some t \<Rightarrow> t \<noteq> [])"

text \<open>
  The mastery update of \<open>review_card\<close> runs inside \<open>try ... except Exception\<close>: when
  the graph store does not answer, the exception is logged and the state stays as it is.
\<close>

definition mastery_step :: "quiz_state \<Rightarrow> string \<Rightarrow> real \<Rightarrow> quiz_state" where
  "mastery_step st chunk delta =
     (if kuzu_up st
      then st\<lparr>graph := update_concept_mastery_from_chunk (graph st) chunk delta\<rparr>
      else st)"

text \<open>
  \<open>review_card\<close>: the answer, an error or the \<open>ReviewResult\<close>, and the state it leaves.
  The lookup \<open>_MASTERY_DELTA[body.grade]\<close> stands before the \<open>try\<close>, so a missing key
  would leave the handler as \<open>KeyError\<close>.
\<close>

definition review_card ::
  "int \<Rightarrow> quiz_state \<Rightarrow> string \<Rightarrow> int \<Rightarrow> (py_error + ReviewResult) \<times> quiz_state" where
  "review_card today st cid grade =
     (if grade \<notin> {0, 1, 2, 3} then (Inl (HTTPException 422), st)
      else case get_flashcard (flashcards st) cid of
        None \<Rightarrow> (Inl (HTTPException 404), st)
      | Some fc \<Rightarrow>
          (case compute_sm2 today grade (repetitions fc) (interval fc) (difficulty fc) of
             Inl e \<Rightarrow> (Inl e, st)
           | Inr (new_reps, new_interval, new_diff, nxt) \<Rightarrow>
               let st1 = st\<lparr>flashcards :=
                              update_flashcard_sm2 (flashcards st) cid new_reps new_interval new_diff nxt\<rparr>;
                   result = \<lparr>rr_id = cid, rr_interval = new_interval, rr_next_review = nxt,
                             rr_repetitions = new_reps, rr_difficulty = new_diff\<rparr>
               in case get_flashcard (flashcards st1) cid of
                    None \<Rightarrow> (Inl (HTTPException 500), st1)
                  | Some updated \<Rightarrow>
                      if truthy_str (chunk_id fc) then
                        (case MASTERY_DELTA grade of
                           None \<Rightarrow> (Inl KeyError, st1)
                         | Some delta \<Rightarrow> (Inr result, mastery_step st1 (the (chunk_id fc)) delta))
                      else (Inr result, st1)))"


section \<open>services/chunker.py\<close>

text \<open>
  A Python \<open>str\<close> is a list of Unicode code points, so that \<open>len\<close> and the offsets
  count what Python counts. \<open>isspace\<close> lists the code points that \<open>str.strip()\<close>
  removes.
\<close>

type_synonym pystr = "nat list"

definition NL :: nat where
  "NL = 10"

definition isspace :: "nat \<Rightarrow> bool" where
  "isspace c \<longleftrightarrow>
     (9 \<le> c \<and> c \<le> 13) \<or> (28 \<le> c \<and> c \<le> 32) \<or> c = 133 \<or> c = 160 \<or> c = 5760 \<or>
     (8192 \<le> c \<and> c \<le> 8202) \<or> c = 8232 \<or> c = 8233 \<or> c = 8239 \<or> c = 8287 \<or> c = 12288"

text \<open>\<open>s.strip()\<close>\<close>

definition py_strip :: "pystr \<Rightarrow> pystr" where
  "py_strip s = rev (dropWhile isspace (rev (dropWhile isspace s)))"

text \<open>\<open>xs[i:]\<close>, for a negative \<open>i\<close> as well.\<close>

definition py_slice_from :: "'a list \<Rightarrow> int \<Rightarrow> 'a list" where
  "py_slice_from xs i = (if i < 0 then drop (nat (int (length xs) + i)) xs else drop (nat i) xs)"

record PageText =
  pt_page_number :: int
  pt_text :: pystr

record ChunkData =
  chunk_index :: int
  content :: pystr
  page_number :: "int option"
  char_start :: int
  char_end :: int
  token_count :: int

definition TARGET_CHARS :: int where
  "TARGET_CHARS = 2000"

definition OVERLAP_CHARS :: int where
  "OVERLAP_CHARS = 200"

text \<open>
  The first loop of \<open>chunk_pages\<close>: the full text, every page followed by a newline,
  and the offset at which each page starts.
\<close>

definition add_page :: "pystr \<times> (int \<times> int) list \<Rightarrow> PageText \<Rightarrow> pystr \<times> (int \<times> int) list" where
  "add_page acc p =
     (case acc of (full_text, page_offsets) \<Rightarrow>
        (full_text @ pt_text p @ [NL], page_offsets @ [(int (length full_text), pt_page_number p)]))"

definition build_full_text :: "PageText list \<Rightarrow> pystr \<times> (int \<times> int) list" where
  "build_full_text pages = foldl add_page ([], []) pages"

text \<open>
  \<open>re.split\<close> on the captured pattern "two or more newlines": the pieces between the
  runs of two or more newlines, alternating with the runs themselves. \<open>cur\<close> collects
  the piece being read.
\<close>

function re_split :: "pystr \<Rightarrow> pystr \<Rightarrow> pystr list" where
  "re_split cur [] = [cur]"
| "re_split cur [c] = [cur @ [c]]"
| "re_split cur (c # d # cs) =
     (if c = NL \<and> d = NL
      then cur # (c # d # takeWhile (\<lambda>x. x = NL) cs) # re_split [] (dropWhile (\<lambda>x. x = NL) cs)
      else re_split (cur @ [c]) (d # cs))"
  by pat_completeness auto
termination
  by (relation "measure (\<lambda>(cur, s). length s)") (auto simp: length_dropWhile_le less_Suc_eq_le le_SucI)

text \<open>\<open>re.match\<close> of that pattern holds when the part starts with two newlines.\<close>

definition matches_delim :: "pystr \<Rightarrow> bool" where
  "matches_delim p = (case p of a # b # _ \<Rightarrow> a = NL \<and> b = NL | _ \<Rightarrow> False)"

text \<open>The \<open>while\<close> loop of \<open>_split_paragraphs\<close>, over the remaining parts.\<close>

fun merge_parts :: "pystr list \<Rightarrow> (pystr \<times> int) list" where
  "merge_parts [] = []"
| "merge_parts [p] = [(p, int (length p))]"
| "merge_parts (p # d # rest) =
     (if matches_delim d then (p @ d, int (length (p @ d))) # merge_parts rest
      else (p, int (length p)) # merge_parts (d # rest))"

definition split_paragraphs :: "pystr \<Rightarrow> (pystr \<times> int) list" where
  "split_paragraphs txt = merge_parts (re_split [] txt)"

text \<open>\<open>_lookup_page\<close>: the loop stops at the first page that starts after the offset.\<close>

fun lookup_page_from :: "int option \<Rightarrow> int \<Rightarrow> (int \<times> int) list \<Rightarrow> int option" where
  "lookup_page_from result char_offset [] = result"
| "lookup_page_from result char_offset ((offset, page_num) # rest) =
     (if offset \<le> char_offset then lookup_page_from (Some page_num) char_offset rest else result)"

definition lookup_page :: "int \<Rightarrow> (int \<times> int) list \<Rightarrow> int option" where
  "lookup_page char_offset page_offsets = lookup_page_from None char_offset page_offsets"

text \<open>
  \<open>_emit_chunk\<close> returns the list it was given when the text trims to nothing, and
  otherwise the list with one more chunk.
\<close>

definition emit_chunk :: "ChunkData list \<Rightarrow> pystr \<Rightarrow> int \<Rightarrow> (int \<times> int) list \<Rightarrow> ChunkData list" where
  "emit_chunk chunks txt start page_offsets =
     (if py_strip txt = [] then chunks
      else chunks @
        [\<lparr>chunk_index = int (length chunks), content = py_strip txt,
          page_number = lookup_page start page_offsets,
          char_start = start, char_end = start + int (length txt),
          token_count = int (length (py_strip txt)) div 4\<rparr>])"

text \<open>
  The state of the main loop is \<open>(chunks, buf, buf_start, text_cursor)\<close>; one step
  handles one paragraph \<open>(para, para_len)\<close>.
\<close>

type_synonym chunker_state = "ChunkData list \<times> pystr \<times> int \<times> int"

definition chunk_step ::
  "int \<Rightarrow> int \<Rightarrow> (int \<times> int) list \<Rightarrow> chunker_state \<Rightarrow> pystr \<times> int \<Rightarrow> chunker_state" where
  "chunk_step target_chars overlap_chars page_offsets st pp =
     (case st of (chunks, buf, buf_start, text_cursor) \<Rightarrow>
      case pp of (para, para_len) \<Rightarrow>
        if py_strip para = [] then (chunks, buf @ para, buf_start, text_cursor + para_len)
        else if buf \<noteq> [] \<and> target_chars < int (length buf) + int (length para) then
          (let overlap_text =
                 (if overlap_chars < int (length buf) then py_slice_from buf (- overlap_chars)
                  else buf)
           in (emit_chunk chunks buf buf_start page_offsets,
               overlap_text @ para,
               buf_start + int (length buf) - int (length overlap_text),
               text_cursor + para_len))
        else (chunks, buf @ para, buf_start, text_cursor + para_len))"

definition chunk_pages :: "PageText list \<Rightarrow> int \<Rightarrow> int \<Rightarrow> ChunkData list" where
  "chunk_pages pages target_chars overlap_chars =
     (if pages = [] then []
      else case build_full_text pages of (full_text, page_offsets) \<Rightarrow>
        if py_strip full_text = [] then []
        else case foldl (chunk_step target_chars overlap_chars page_offsets) ([], [], 0, 0)
                    (split_paragraphs full_text) of
          (chunks, buf, buf_start, text_cursor) \<Rightarrow>
            if py_strip buf \<noteq> [] then emit_chunk chunks buf buf_start page_offsets else chunks)"

text \<open>
  Vocabulary for the chunker's properties: two neighbouring chunks leave no gap
  (\<open>link\<close>), the offsets some chunk covers (\<open>covered\<close>), a chunk is the trimmed text of
  its range (\<open>in_text\<close>), and the invariant of the main loop after the paragraphs that
  make up \<open>seen\<close>.
\<close>

definition link :: "ChunkData \<Rightarrow> ChunkData \<Rightarrow> bool" where
  "link a b \<longleftrightarrow> char_start a \<le> char_start b \<and> char_start b \<le> char_end a \<and> char_end a \<le> char_end b"

definition covered :: "ChunkData list \<Rightarrow> int set" where
  "covered cs = (\<Union>c\<in>set cs. {char_start c..<char_end c})"

definition in_text :: "pystr \<Rightarrow> ChunkData \<Rightarrow> bool" where
  "in_text txt c \<longleftrightarrow>
     (\<exists>a b r. txt = a @ b @ r \<and> char_start c = int (length a) \<and>
        char_end c = int (length a) + int (length b) \<and> content c = py_strip b \<and> content c \<noteq> [])"

definition chunker_inv :: "pystr \<Rightarrow> chunker_state \<Rightarrow> bool" where
  "chunker_inv seen st =
     (case st of (chunks, buf, buf_start, text_cursor) \<Rightarrow>
        text_cursor = int (length seen) \<and>
        (\<exists>pre. seen = pre @ buf \<and> buf_start = int (length pre) \<and>
               (chunks = [] \<longrightarrow> (\<forall>x\<in>set pre. isspace x))) \<and>
        map chunk_index chunks = map int [0..<length chunks] \<and>
        successively link chunks \<and>
        (\<forall>c\<in>set chunks. in_text seen c) \<and>
        (chunks \<noteq> [] \<longrightarrow>
           py_strip buf \<noteq> [] \<and> char_start (last chunks) \<le> buf_start \<and>
           buf_start \<le> char_end (last chunks) \<and>
           (\<forall>x\<in>set (take (nat (char_start (hd chunks))) seen). isspace x)))"


section \<open>models/document.py and db/sqlite.py: documents, chunk rows, settings\<close>

datatype DocumentStatus =
    PENDING
  | EXTRACTING
  | CHUNKING
  | EMBEDDING
  | EXTRACTING_CONCEPTS
  | CONCEPTS_READY
  | READY
  | NEEDS_OCR
  | ERROR

text \<open>
  The columns of \<open>documents\<close> and \<open>chunks\<close> that the pipeline reads or writes after
  upload; title, author, file, page count and the timestamps are left out. A chunk row
  carries the \<open>ChunkData\<close> it was inserted from.
\<close>

record Document =
  doc_id :: string
  status :: DocumentStatus
  concept_count :: int

record ChunkRow =
  row_id :: string
  row_document_id :: string
  row_chunk :: ChunkData
  has_embedding :: bool

text \<open>
  The relational store. Two fields are bookkeeping of the model and not tables:
  \<open>uuid_calls\<close> counts the identifiers drawn so far, and \<open>status_log\<close> records every
  call of \<open>_set_status\<close> in order, so that the history of a status can be stated. The
  store's calls are taken to succeed: no query of the model raises.
\<close>

record sqlite =
  db_documents :: "Document list"
  db_chunks :: "ChunkRow list"
  db_settings :: "string \<rightharpoonup> string"
  uuid_calls :: nat
  status_log :: "(string \<times> DocumentStatus) list"

definition get_document :: "sqlite \<Rightarrow> string \<Rightarrow> Document option" where
  "get_document db d = find (\<lambda>doc. doc_id doc = d) (db_documents db)"

definition find_documents_by_status :: "sqlite \<Rightarrow> DocumentStatus list \<Rightarrow> Document list" where
  "find_documents_by_status db statuses =
     filter (\<lambda>doc. status doc \<in> set statuses) (db_documents db)"

definition get_setting :: "sqlite \<Rightarrow> string \<Rightarrow> string option" where
  "get_setting db key = db_settings db key"

text \<open>
  \<open>_set_status\<close>, that is \<open>update_document\<close> with only the status set: an \<open>UPDATE\<close> of
  the rows with that id (none, when the document does not exist).
\<close>

definition set_status :: "sqlite \<Rightarrow> string \<Rightarrow> DocumentStatus \<Rightarrow> sqlite" where
  "set_status db d s =
     db\<lparr>db_documents := map (\<lambda>doc. if doc_id doc = d then doc\<lparr>status := s\<rparr> else doc)
                            (db_documents db),
        status_log := status_log db @ [(d, s)]\<rparr>"

text \<open>\<open>UPDATE documents SET concept_count = ? WHERE id = ?\<close>\<close>

definition set_concept_count :: "sqlite \<Rightarrow> string \<Rightarrow> int \<Rightarrow> sqlite" where
  "set_concept_count db d n =
     db\<lparr>db_documents := map (\<lambda>doc. if doc_id doc = d then doc\<lparr>concept_count := n\<rparr> else doc)
                            (db_documents db)\<rparr>"

text \<open>
  \<open>insert_chunks\<close> inserts one row per chunk, each under a fresh \<open>uuid4\<close> and with
  \<open>has_embedding = 0\<close>.
\<close>

definition insert_chunk :: "(nat \<Rightarrow> string) \<Rightarrow> string \<Rightarrow> sqlite \<Rightarrow> ChunkData \<Rightarrow> sqlite" where
  "insert_chunk uuid4 d db c =
     db\<lparr>db_chunks := db_chunks db @
          [\<lparr>row_id = uuid4 (uuid_calls db), row_document_id = d, row_chunk = c,
            has_embedding = False\<rparr>],
        uuid_calls := Suc (uuid_calls db)\<rparr>"

definition insert_chunks ::
  "(nat \<Rightarrow> string) \<Rightarrow> sqlite \<Rightarrow> string \<Rightarrow> ChunkData list \<Rightarrow> sqlite" where
  "insert_chunks uuid4 db d cs = foldl (insert_chunk uuid4 d) db cs"

definition update_chunks_embedding :: "sqlite \<Rightarrow> string \<Rightarrow> sqlite" where
  "update_chunks_embedding db d =
     db\<lparr>db_chunks := map (\<lambda>r. if row_document_id r = d then r\<lparr>has_embedding := True\<rparr> else r)
                         (db_chunks db)\<rparr>"

definition status_of :: "sqlite \<Rightarrow> string \<Rightarrow> DocumentStatus option" where
  "status_of db d = map_option status (get_document db d)"

text \<open>The status writes made between a state and a later one.\<close>

definition new_writes :: "sqlite \<Rightarrow> sqlite \<Rightarrow> (string \<times> DocumentStatus) list" where
  "new_writes db db' = drop (length (status_log db)) (status_log db')"


section \<open>What the collaborators answer\<close>

text \<open>
  The PDF extractor, the vector store, the graph store, the text generation service and
  the identifier generator are outside the pipeline. A \<open>world\<close> fixes what they
  answer: whether \<open>extract_pdf\<close> raises or what it returns for a document's file (of the
  extraction only the pages and the \<open>needs_ocr\<close> flag are kept), whether the calls to
  the vector store and to the graph store succeed, and for the \<open>k\<close>-th call of
  \<open>chat_json\<close> made for a document what becomes of that chunk:
  \<open>LLMUnavailableError\<close>, another exception of the call, an exception raised by the
  code that handles the reply and caught nowhere in the loop (a reply that is no
  dictionary, for example), or a reply handled to the end, with the number of concepts
  or cards it added.
\<close>

datatype 'a outcome = Raised | Returned 'a

record PdfExtraction =
  ex_pages :: "PageText list"
  ex_needs_ocr :: bool

datatype llm_reply = Unavailable | CallFailed | BodyRaised | Handled nat

record world =
  extract_pdf :: "string \<Rightarrow> PdfExtraction outcome"
  vector_store_up :: bool
  graph_store_up :: bool
  concept_chat :: "string \<Rightarrow> nat \<Rightarrow> llm_reply"
  card_chat :: "string \<Rightarrow> nat \<Rightarrow> llm_reply"
  uuid4 :: "nat \<Rightarrow> string"


section \<open>services/concept\_extractor.py and services/flashcard\_generator.py\<close>

definition CONCEPT_MAX_CHUNKS :: nat where
  "CONCEPT_MAX_CHUNKS = 20"

definition FLASHCARD_MAX_CHUNKS :: nat where
  "FLASHCARD_MAX_CHUNKS = 10"

definition MIN_CHUNK_CHARS :: nat where
  "MIN_CHUNK_CHARS = 100"

text \<open>
  The query of both sub-stages:
  \<open>SELECT id, content FROM chunks WHERE document_id = ? AND has_embedding = 1
  ORDER BY chunk_index LIMIT ?\<close>. Rows with equal \<open>chunk_index\<close> are kept in table
  order.
\<close>

definition select_chunks :: "sqlite \<Rightarrow> string \<Rightarrow> nat \<Rightarrow> ChunkRow list" where
  "select_chunks db d cap =
     take cap (sort_key (\<lambda>r. chunk_index (row_chunk r))
                 (filter (\<lambda>r. row_document_id r = d \<and> has_embedding r) (db_chunks db)))"

text \<open>
  The loop \<open>for row in rows\<close> of both sub-stages. \<open>k\<close> counts the calls of \<open>chat_json\<close>
  so far and \<open>total_count\<close> is the running total. The result is the list of rows for
  which \<open>chat_json\<close> was called, in order, and the total, or \<open>Raised\<close> when an
  exception leaves the loop.
\<close>

fun chunk_loop ::
  "(nat \<Rightarrow> llm_reply) \<Rightarrow> nat \<Rightarrow> int \<Rightarrow> ChunkRow list \<Rightarrow> ChunkRow list \<times> int outcome" where
  "chunk_loop chat k total_count [] = ([], Returned total_count)"
| "chunk_loop chat k total_count (r # rows) =
     (if length (content (row_chunk r)) < MIN_CHUNK_CHARS then chunk_loop chat k total_count rows
      else case chat k of
        Unavailable \<Rightarrow> ([r], Returned total_count)
      | CallFailed \<Rightarrow>
          (case chunk_loop chat (Suc k) total_count rows of (called, res) \<Rightarrow> (r # called, res))
      | BodyRaised \<Rightarrow> ([r], Raised)
      | Handled n \<Rightarrow>
          (case chunk_loop chat (Suc k) (total_count + int n) rows of
             (called, res) \<Rightarrow> (r # called, res)))"

text \<open>
  \<open>extract_concepts_for_document\<close>: \<open>ensure_doc_node\<close> is the first call to the graph
  store and raises when the store does not answer.
\<close>

definition extract_concepts_for_document ::
  "world \<Rightarrow> sqlite \<Rightarrow> string \<Rightarrow> (ChunkRow list \<times> int outcome) \<times> sqlite" where
  "extract_concepts_for_document w db d =
     (let rows = select_chunks db d CONCEPT_MAX_CHUNKS
      in if rows = [] then (([], Returned 0), db)
         else if \<not> graph_store_up w then (([], Raised), db)
         else case chunk_loop (concept_chat w d) 0 0 rows of
                (called, Raised) \<Rightarrow> ((called, Raised), db)
              | (called, Returned total_count) \<Rightarrow>
                  ((called, Returned total_count),
                   if 0 < total_count then set_concept_count db d total_count else db))"

text \<open>\<open>generate_flashcards_for_document\<close>; the inserted cards are only counted.\<close>

definition generate_flashcards_for_document ::
  "world \<Rightarrow> sqlite \<Rightarrow> string \<Rightarrow> (ChunkRow list \<times> int outcome) \<times> sqlite" where
  "generate_flashcards_for_document w db d =
     (let rows = select_chunks db d FLASHCARD_MAX_CHUNKS
      in if rows = [] then (([], Returned 0), db)
         else (chunk_loop (card_chat w d) 0 0 rows, db))"

definition long_enough :: "ChunkRow \<Rightarrow> bool" where
  "long_enough r \<longleftrightarrow> MIN_CHUNK_CHARS \<le> length (content (row_chunk r))"

text \<open>No call is answered by \<open>LLMUnavailableError\<close> or ends in an uncaught exception.\<close>

definition keeps_going :: "(nat \<Rightarrow> llm_reply) \<Rightarrow> bool" where
  "keeps_going chat \<longleftrightarrow> (\<forall>k. chat k \<noteq> Unavailable \<and> chat k \<noteq> BodyRaised)"

text \<open>
  The order the specification names, read as "the most recent chunk first": the chunk
  indices do not increase along the list.
\<close>

definition most_recent_order :: "ChunkRow list \<Rightarrow> bool" where
  "most_recent_order rows \<longleftrightarrow>
     sorted_wrt (\<lambda>a b. chunk_index (row_chunk b) \<le> chunk_index (row_chunk a)) rows"


section \<open>services/ingestion.py\<close>

text \<open>
  \<open>_run_llm_stage\<close>: each sub-stage runs inside its own \<open>try ... except Exception\<close>, so
  its outcome is dropped and only its effect on the store is kept.
\<close>

definition run_llm_stage :: "world \<Rightarrow> sqlite \<Rightarrow> string \<Rightarrow> sqlite" where
  "run_llm_stage w db d =
     (let db1 = set_status db d EXTRACTING_CONCEPTS;
          db2 = snd (extract_concepts_for_document w db1 d);
          db3 = snd (generate_flashcards_for_document w db2 d)
      in set_status db3 d CONCEPTS_READY)"

definition llm_configured :: "sqlite \<Rightarrow> bool" where
  "llm_configured db \<longleftrightarrow>
     truthy_str (get_setting db ''llm_model_id'') \<or> truthy_str (get_setting db ''llm_model_path'')"

text \<open>
  \<open>process_document\<close>. An exception of \<open>extract_pdf\<close> or of the vector store reaches
  the outer \<open>except\<close>, which writes the status \<open>error\<close>.
\<close>

definition process_document :: "world \<Rightarrow> sqlite \<Rightarrow> string \<Rightarrow> sqlite" where
  "process_document w db d =
     (let db1 = set_status db d EXTRACTING
      in case get_document db1 d of
           None \<Rightarrow> db1
         | Some doc \<Rightarrow>
             (case extract_pdf w d of
                Raised \<Rightarrow> set_status db1 d ERROR
              | Returned extraction \<Rightarrow>
                  if ex_needs_ocr extraction then set_status db1 d NEEDS_OCR
                  else
                    let db2 = set_status db1 d CHUNKING;
                        chunks = chunk_pages (ex_pages extraction) TARGET_CHARS OVERLAP_CHARS
                    in if chunks = [] then set_status db2 d READY
                       else
                         let db3 = insert_chunks (uuid4 w) db2 d chunks;
                             db4 = set_status db3 d EMBEDDING
                         in if \<not> vector_store_up w then set_status db4 d ERROR
                            else
                              let db5 = update_chunks_embedding db4 d
                              in if llm_configured db5 then run_llm_stage w db5 d
                                 else set_status db5 d READY))"

text \<open>
  \<open>run_llm_stage_for_doc\<close>. Its \<open>except\<close> branch, which writes \<open>ready\<close>, is entered
  only when the store itself raises, which the model leaves out.
\<close>

definition run_llm_stage_for_doc :: "world \<Rightarrow> sqlite \<Rightarrow> string \<Rightarrow> sqlite" where
  "run_llm_stage_for_doc w db d =
     (case get_document db d of None \<Rightarrow> db | Some doc \<Rightarrow> run_llm_stage w db d)"

text \<open>
  The order of the pipeline stages, the step the specification allows (forward in that
  order, or to \<open>error\<close>), the step the code takes inside one run (forward, or to
  \<open>error\<close> or \<open>needs_ocr\<close>), and the status sequences one run of \<open>process_document\<close>
  can write for a document that exists.
\<close>

fun stage_rank :: "DocumentStatus \<Rightarrow> nat option" where
  "stage_rank PENDING = Some 0"
| "stage_rank EXTRACTING = Some 1"
| "stage_rank CHUNKING = Some 2"
| "stage_rank EMBEDDING = Some 3"
| "stage_rank EXTRACTING_CONCEPTS = Some 4"
| "stage_rank CONCEPTS_READY = Some 5"
| "stage_rank READY = Some 6"
| "stage_rank NEEDS_OCR = None"
| "stage_rank ERROR = None"

definition forward :: "DocumentStatus \<Rightarrow> DocumentStatus \<Rightarrow> bool" where
  "forward a b = (case (stage_rank a, stage_rank b) of (Some i, Some j) \<Rightarrow> i \<le> j | _ \<Rightarrow> False)"

definition claimed_step :: "DocumentStatus \<Rightarrow> DocumentStatus \<Rightarrow> bool" where
  "claimed_step a b \<longleftrightarrow> b = ERROR \<or> forward a b"

definition permitted_step :: "DocumentStatus \<Rightarrow> DocumentStatus \<Rightarrow> bool" where
  "permitted_step a b \<longleftrightarrow> b = ERROR \<or> b = NEEDS_OCR \<or> forward a b"

definition pipeline_traces :: "DocumentStatus list set" where
  "pipeline_traces =
     {[EXTRACTING, ERROR],
      [EXTRACTING, NEEDS_OCR],
      [EXTRACTING, CHUNKING, READY],
      [EXTRACTING, CHUNKING, EMBEDDING, ERROR],
      [EXTRACTING, CHUNKING, EMBEDDING, READY],
      [EXTRACTING, CHUNKING, EMBEDDING, EXTRACTING_CONCEPTS, CONCEPTS_READY]}"


section \<open>services/task\_registry.py\<close>

text \<open>
  A task of the event loop is the coroutine it runs, the document id in its name and
  whether it is done; \<open>loop_tasks\<close> lists the tasks in the order they were created and
  \<open>running_tasks\<close> is the dictionary \<open>_running_tasks\<close>, from document id to task.
  Tasks are run one after the other: the interleaving of several tasks at their
  \<open>await\<close>s is not modelled.
\<close>

datatype coro = ProcessDocument string | RunLlmStageForDoc string

record task =
  task_name :: string
  task_coro :: coro
  task_done :: bool

record registry =
  loop_tasks :: "task list"
  running_tasks :: "string \<rightharpoonup> nat"

definition empty_registry :: registry where
  "empty_registry = \<lparr>loop_tasks = [], running_tasks = Map.empty\<rparr>"

definition start_task :: "registry \<Rightarrow> string \<Rightarrow> coro \<Rightarrow> registry" where
  "start_task reg d c =
     reg\<lparr>loop_tasks := loop_tasks reg @ [\<lparr>task_name = d, task_coro = c, task_done = False\<rparr>],
         running_tasks := (running_tasks reg)(d \<mapsto> length (loop_tasks reg))\<rparr>"

text \<open>
  A task ends: it is done, and its callback \<open>_running_tasks.pop(doc_id, None)\<close> removes
  whatever entry the document id has.
\<close>

definition finish_task :: "registry \<Rightarrow> nat \<Rightarrow> registry" where
  "finish_task reg i =
     (if i < length (loop_tasks reg)
      then reg\<lparr>loop_tasks := (loop_tasks reg)[i := (loop_tasks reg ! i)\<lparr>task_done := True\<rparr>],
               running_tasks := (running_tasks reg)(task_name (loop_tasks reg ! i) := None)\<rparr>
      else reg)"

definition get_task :: "registry \<Rightarrow> string \<Rightarrow> nat option" where
  "get_task reg d = running_tasks reg d"

definition is_processing :: "registry \<Rightarrow> string \<Rightarrow> bool" where
  "is_processing reg d =
     (case running_tasks reg d of None \<Rightarrow> False | Some i \<Rightarrow> \<not> task_done (loop_tasks reg ! i))"

text \<open>The tasks created for a document id, and those of them that are still running.\<close>

definition tasks_of :: "registry \<Rightarrow> string \<Rightarrow> task list" where
  "tasks_of reg d = filter (\<lambda>t. task_name t = d) (loop_tasks reg)"

definition active_tasks :: "registry \<Rightarrow> string \<Rightarrow> task list" where
  "active_tasks reg d = filter (\<lambda>t. task_name t = d \<and> \<not> task_done t) (loop_tasks reg)"

definition stuck_before_llm :: "Document \<Rightarrow> bool" where
  "stuck_before_llm doc \<longleftrightarrow>
     status doc = EXTRACTING \<or> status doc = CHUNKING \<or> status doc = EMBEDDING"

definition stuck_in_llm :: "Document \<Rightarrow> bool" where
  "stuck_in_llm doc \<longleftrightarrow> status doc = EXTRACTING_CONCEPTS"

definition recover_stuck_documents :: "sqlite \<Rightarrow> registry \<Rightarrow> registry" where
  "recover_stuck_documents db reg =
     (let stuck_pipeline = find_documents_by_status db [EXTRACTING, CHUNKING, EMBEDDING];
          reg1 = foldl (\<lambda>r doc. start_task r (doc_id doc) (ProcessDocument (doc_id doc)))
                       reg stuck_pipeline;
          stuck_llm = find_documents_by_status db [EXTRACTING_CONCEPTS]
      in foldl (\<lambda>r doc. start_task r (doc_id doc) (RunLlmStageForDoc (doc_id doc))) reg1 stuck_llm)"

text \<open>What a task does when the event loop runs it.\<close>

definition run_coro :: "world \<Rightarrow> sqlite \<Rightarrow> coro \<Rightarrow> sqlite" where
  "run_coro w db c =
     (case c of ProcessDocument d \<Rightarrow> process_document w db d
              | RunLlmStageForDoc d \<Rightarrow> run_llm_stage_for_doc w db d)"


section \<open>Example stores and worlds\<close>

text \<open>
  A store with four documents: \<open>d\<close> stopped in the LLM stage, with three embedded
  chunks of 100, 120 and 99 characters inserted out of index order; \<open>e\<close> stopped while
  embedding; \<open>f\<close> finished; \<open>p\<close> just uploaded. In \<open>demo_world\<close> everything answers and extraction finds
  no page; in \<open>failing_world\<close> extraction raises, the graph store is down and every
  reply makes the handling code raise; \<open>flaky_world\<close> is the same except that extraction
  returns one short page.
\<close>

definition demo_chunk :: "int \<Rightarrow> nat \<Rightarrow> ChunkData" where
  "demo_chunk i n =
     \<lparr>chunk_index = i, content = replicate n 65, page_number = Some 1, char_start = 0,
      char_end = int n, token_count = int n div 4\<rparr>"

definition demo_db :: sqlite where
  "demo_db =
     \<lparr>db_documents = [\<lparr>doc_id = ''d'', status = EXTRACTING_CONCEPTS, concept_count = 0\<rparr>,
                      \<lparr>doc_id = ''e'', status = EMBEDDING, concept_count = 0\<rparr>,
                      \<lparr>doc_id = ''f'', status = READY, concept_count = 0\<rparr>,
                      \<lparr>doc_id = ''p'', status = PENDING, concept_count = 0\<rparr>],
      db_chunks =
        [\<lparr>row_id = ''r1'', row_document_id = ''d'', row_chunk = demo_chunk 1 100,
          has_embedding = True\<rparr>,
         \<lparr>row_id = ''r0'', row_document_id = ''d'', row_chunk = demo_chunk 0 120,
          has_embedding = True\<rparr>,
         \<lparr>row_id = ''r2'', row_document_id = ''d'', row_chunk = demo_chunk 2 99,
          has_embedding = True\<rparr>,
         \<lparr>row_id = ''r3'', row_document_id = ''e'', row_chunk = demo_chunk 0 150,
          has_embedding = False\<rparr>],
      db_settings = [''llm_model_id'' \<mapsto> ''m''],
      uuid_calls = 4,
      status_log = []\<rparr>"

definition demo_world :: world where
  "demo_world =
     \<lparr>extract_pdf = (\<lambda>d. Returned \<lparr>ex_pages = [], ex_needs_ocr = False\<rparr>),
      vector_store_up = True,
      graph_store_up = True,
      concept_chat = (\<lambda>d k. Handled 1),
      card_chat = (\<lambda>d k. Handled 2),
      uuid4 = (\<lambda>n. replicate (Suc n) CHR ''u'')\<rparr>"

definition failing_world :: world where
  "failing_world =
     \<lparr>extract_pdf = (\<lambda>d. Raised),
      vector_store_up = True,
      graph_store_up = False,
      concept_chat = (\<lambda>d k. BodyRaised),
      card_chat = (\<lambda>d k. BodyRaised),
      uuid4 = (\<lambda>n. replicate (Suc n) CHR ''u'')\<rparr>"

definition flaky_world :: world where
  "flaky_world =
     \<lparr>extract_pdf = (\<lambda>d. Returned \<lparr>ex_pages = [\<lparr>pt_page_number = 1, pt_text = [72, 105]\<rparr>],
                                     ex_needs_ocr = False\<rparr>),
      vector_store_up = True,
      graph_store_up = False,
      concept_chat = (\<lambda>d k. BodyRaised),
      card_chat = (\<lambda>d k. BodyRaised),
      uuid4 = (\<lambda>n. replicate (Suc n) CHR ''u'')\<rparr>"


section \<open>Properties of the scheduler\<close>

lemma quality_of_grade:
  "py_getitem GRADE_QUALITY 0 = Inr 0"
  "py_getitem GRADE_QUALITY 1 = Inr 2"
  "py_getitem GRADE_QUALITY 2 = Inr 4"
  "py_getitem GRADE_QUALITY 3 = Inr 5"
  by (simp_all add: py_getitem_def GRADE_QUALITY_def)

text \<open>
  C5. For every prior card state and for the grades fail (0) and hard (1), whose
  quality is below the pass threshold 3, the computation returns repetitions 0 and
  interval 1. It returns whenever tomorrow is still a calendar date.
\<close>

theorem sm2_below_threshold_resets:
  assumes "grade = 0 \<or> grade = 1" and "1 \<le> today" and "today < MAXORDINAL"
  shows "\<exists>d. compute_sm2 today grade reps ival diff = Inr (0, 1, d, today + 1)"
  using assms
  by (auto simp: compute_sm2_def quality_of_grade date_plus_days_def Let_def)

theorem sm2_below_threshold_resets_witness:
  "\<exists>d. compute_sm2 738000 1 7 30 (1 / 2) = Inr (0, 1, d, 738000 + 1)"
  using sm2_below_threshold_resets [of 1 738000 7 30 "1 / 2"]
  by (simp add: MAXORDINAL_def)

text \<open>
  C6 as stated: grade easy (3) on a card with repetitions 1, interval 6 and difficulty
  0.3 is claimed to give interval 13. The code takes the branch
  \<open>elif repetitions == 1: new_interval = 6\<close>, so the interval is 6 and the next review
  is six days ahead, although the formula of the third tier does evaluate to 13.
\<close>

theorem sm2_easy_second_review_counterexample:
  "compute_sm2 738000 3 1 6 (3 / 10) = Inr (2, 6, 7 / 25, 738006) \<and>
   py_round (6 * (5 / 2 - 3 / 10 * (12 / 10))) = 13"
  by (simp add: compute_sm2_def quality_of_grade date_plus_days_def MAXORDINAL_def Let_def
      py_round_def)

text \<open>
  C6 amended. Grade easy on a card with repetitions 1, interval 6, difficulty 0.3 gives
  repetitions 2, interval 6 and a next review at today + 6 days; the interval
  \<open>round(6 * (2.5 - 0.36)) = 13\<close> and a next review at today + 13 days are what the same
  grade gives on a card with repetitions 2, interval 6, difficulty 0.3 (repetitions
  becomes 3). The new difficulty is 0.28 in both cases.
\<close>

theorem sm2_easy_scenario:
  assumes "1 \<le> today" and "today + 13 \<le> MAXORDINAL"
  shows "compute_sm2 today 3 1 6 (3 / 10) = Inr (2, 6, 7 / 25, today + 6) \<and>
         compute_sm2 today 3 2 6 (3 / 10) = Inr (3, 13, 7 / 25, today + 13)"
  using assms
  by (simp add: compute_sm2_def quality_of_grade date_plus_days_def MAXORDINAL_def Let_def
      py_round_def)

theorem sm2_easy_scenario_witness:
  "compute_sm2 739000 3 1 6 (3 / 10) = Inr (2, 6, 7 / 25, 739000 + 6) \<and>
   compute_sm2 739000 3 2 6 (3 / 10) = Inr (3, 13, 7 / 25, 739000 + 13)"
  using sm2_easy_scenario [of 739000]
  by (simp add: MAXORDINAL_def)


section \<open>Bounds on interval, difficulty and mastery\<close>

lemma clamp_bounds:
  "(lo::real) \<le> hi \<Longrightarrow> lo \<le> max lo (min hi x) \<and> max lo (min hi x) \<le> hi"
  by (simp add: max_def min_def)

lemma sm2_bounds:
  assumes "compute_sm2 today grade reps ival diff = Inr (r, i, d, n)"
  shows "1 \<le> i \<and> 1 / 10 \<le> d \<and> d \<le> 9 / 10"
proof -
  from assms obtain q where q: "py_getitem GRADE_QUALITY grade = Inr q"
    by (auto simp: compute_sm2_def split: sum.splits)
  define x where
    "x = diff - (1 / 10 - of_int (5 - q) * (8 / 100 + of_int (5 - q) * (2 / 100))) * (2 / 10)"
  from assms q have d: "d = max (1 / 10) (min (9 / 10) x)"
    and i: "i = (if q < 3 then 1 else if reps = 0 then 1 else if reps = 1 then 6
                 else max 1 (py_round (of_int ival * (5 / 2 - diff * (12 / 10)))))"
    by (auto simp: compute_sm2_def Let_def x_def split: sum.splits)
  have "1 \<le> i" unfolding i by simp
  moreover have "1 / 10 \<le> d \<and> d \<le> 9 / 10"
    unfolding d using clamp_bounds [of "1 / 10" "9 / 10" x] by simp
  ultimately show ?thesis by simp
qed

lemma date_plus_days_ok:
  "1 \<le> today \<Longrightarrow> 1 \<le> n \<Longrightarrow> today + n \<le> MAXORDINAL \<Longrightarrow>
   date_plus_days today n = Inr (today + n)"
  by (simp add: date_plus_days_def MAXORDINAL_def)

lemma sm2_returns:
  assumes g: "grade \<in> {0, 1, 2, 3}" and t: "1 \<le> today"
    and m: "today + max 6 (py_round (of_int ival * (5 / 2 - diff * (12 / 10)))) \<le> MAXORDINAL"
  shows "\<exists>res. compute_sm2 today grade reps ival diff = Inr res"
proof -
  from g obtain q where q: "py_getitem GRADE_QUALITY grade = Inr q"
    using quality_of_grade by auto
  define ni where
    "ni = (if q < 3 then 1 else if reps = 0 then 1 else if reps = 1 then 6
           else max 1 (py_round (of_int ival * (5 / 2 - diff * (12 / 10)))))"
  have "1 \<le> ni" "ni \<le> max 6 (py_round (of_int ival * (5 / 2 - diff * (12 / 10))))"
    by (auto simp: ni_def)
  with t m have "date_plus_days today ni = Inr (today + ni)"
    by (intro date_plus_days_ok) auto
  then show ?thesis
    using q by (simp add: compute_sm2_def Let_def ni_def)
qed

lemma set_concept_cases:
  "c \<in> set (set_concept u cs) \<Longrightarrow>
   (c \<in> set cs \<and> concept_id c \<noteq> fst u) \<or> (concept_id c = fst u \<and> mastery c = fst (snd u))"
  by (cases u) (auto simp: set_concept_def)

lemma foldl_set_concept_bounds:
  assumes "\<forall>u\<in>set us. 0 \<le> fst (snd u) \<and> fst (snd u) \<le> 1"
    and "\<forall>c\<in>set cs. concept_id c \<in> S \<longrightarrow> 0 \<le> mastery c \<and> mastery c \<le> 1"
  shows "\<forall>c\<in>set (foldl (\<lambda>cs u. set_concept u cs) cs us).
           concept_id c \<in> S \<union> fst ` set us \<longrightarrow> 0 \<le> mastery c \<and> mastery c \<le> 1"
  using assms
proof (induction us arbitrary: cs S)
  case Nil
  then show ?case by simp
next
  case (Cons u us)
  have step: "\<forall>c\<in>set (set_concept u cs).
      concept_id c \<in> insert (fst u) S \<longrightarrow> 0 \<le> mastery c \<and> mastery c \<le> 1"
  proof (intro ballI impI)
    fix c
    assume c: "c \<in> set (set_concept u cs)" and inS: "concept_id c \<in> insert (fst u) S"
    from set_concept_cases [OF c] show "0 \<le> mastery c \<and> mastery c \<le> 1"
    proof
      assume "c \<in> set cs \<and> concept_id c \<noteq> fst u"
      with inS Cons.prems(2) show ?thesis by auto
    next
      assume "concept_id c = fst u \<and> mastery c = fst (snd u)"
      with Cons.prems(1) show ?thesis by auto
    qed
  qed
  from Cons.prems(1) have "\<forall>u\<in>set us. 0 \<le> fst (snd u) \<and> fst (snd u) \<le> 1" by simp
  from Cons.IH [OF this step] show ?case by simp
qed

lemma mastery_updates_bounds:
  "\<forall>u\<in>set (mastery_updates rows delta). 0 \<le> fst (snd u) \<and> fst (snd u) \<le> 1"
  by (auto simp: mastery_updates_def)

lemma mastery_updates_ids: "fst ` set (mastery_updates rows delta) = fst ` set rows"
  by (force simp: mastery_updates_def)

lemma mastery_linked:
  "\<forall>c\<in>set (concepts (update_concept_mastery_from_chunk g ch delta)).
      concept_id c \<in> fst ` set (mastery_rows g ch) \<longrightarrow> 0 \<le> mastery c \<and> mastery c \<le> 1"
  using foldl_set_concept_bounds
    [OF mastery_updates_bounds, of "concepts g" "{}" "mastery_rows g ch" delta]
  by (simp add: update_concept_mastery_from_chunk_def mastery_updates_ids)

lemma mastery_all:
  "\<forall>c\<in>set (concepts g). 0 \<le> mastery c \<and> mastery c \<le> 1 \<Longrightarrow>
   \<forall>c\<in>set (concepts (update_concept_mastery_from_chunk g ch delta)).
      0 \<le> mastery c \<and> mastery c \<le> 1"
  using foldl_set_concept_bounds
    [OF mastery_updates_bounds, of "concepts g" UNIV "mastery_rows g ch" delta]
  by (simp add: update_concept_mastery_from_chunk_def)

text \<open>
  C7. Whatever the card state and the grade, a result of the review computation has
  interval at least 1 and difficulty between 0.1 and 0.9; for the grades 0 to 3 there is
  a result whenever the next review date is still on the calendar. A mastery update
  leaves every concept it touches (the concepts linked to the chunk) with a mastery
  between 0 and 1, for every delta, and so keeps a store whose masteries are all in
  that range in that range.
\<close>

theorem sm2_and_mastery_bounds:
  "(\<forall>r i d n. compute_sm2 today grade reps ival diff = Inr (r, i, d, n) \<longrightarrow>
       1 \<le> i \<and> 1 / 10 \<le> d \<and> d \<le> 9 / 10) \<and>
   (grade \<in> {0, 1, 2, 3} \<and> 1 \<le> today \<and>
    today + max 6 (py_round (of_int ival * (5 / 2 - diff * (12 / 10)))) \<le> MAXORDINAL \<longrightarrow>
       (\<exists>res. compute_sm2 today grade reps ival diff = Inr res)) \<and>
   (\<forall>c\<in>set (concepts (update_concept_mastery_from_chunk g ch delta)).
       concept_id c \<in> fst ` set (mastery_rows g ch) \<longrightarrow> 0 \<le> mastery c \<and> mastery c \<le> 1) \<and>
   ((\<forall>c\<in>set (concepts g). 0 \<le> mastery c \<and> mastery c \<le> 1) \<longrightarrow>
    (\<forall>c\<in>set (concepts (update_concept_mastery_from_chunk g ch delta)).
       0 \<le> mastery c \<and> mastery c \<le> 1))"
  using sm2_bounds [of today grade reps ival diff] sm2_returns [of grade today ival diff reps]
    mastery_linked [of g ch delta] mastery_all [of g ch delta]
  by blast

theorem sm2_and_mastery_bounds_witness:
  "(\<exists>r i d n. compute_sm2 738000 2 5 10 (1 / 2) = Inr (r, i, d, n) \<and>
       1 \<le> i \<and> 1 / 10 \<le> d \<and> d \<le> 9 / 10) \<and>
   list_all (\<lambda>c. concept_id c = ''c1'' \<and> 0 \<le> mastery c \<and> mastery c \<le> 1)
     (concepts (update_concept_mastery_from_chunk
        \<lparr>concepts = [\<lparr>concept_id = ''c1'', mastery = 19 / 20, review_count = 3\<rparr>],
         extracted_from = [\<lparr>ef_concept = ''c1'', ef_doc = ''d1'', ef_chunk_id = ''k1''\<rparr>]\<rparr>
        ''k1'' (1 / 10)))"
proof -
  let ?g = "\<lparr>concepts = [\<lparr>concept_id = ''c1'', mastery = 19 / 20, review_count = 3\<rparr>],
         extracted_from = [\<lparr>ef_concept = ''c1'', ef_doc = ''d1'', ef_chunk_id = ''k1''\<rparr>]\<rparr>"
  note T = sm2_and_mastery_bounds [of 738000 2 5 10 "1 / 2" ?g "''k1''" "1 / 10"]
  have r: "py_round (real_of_int 10 * (5 / 2 - 1 / 2 * (12 / 10))) = 19"
    by (simp add: py_round_def Let_def)
  have pre: "(2::int) \<in> {0, 1, 2, 3} \<and> (1::int) \<le> 738000 \<and>
    738000 + max 6 (py_round (real_of_int 10 * (5 / 2 - 1 / 2 * (12 / 10)))) \<le> MAXORDINAL"
    unfolding r by (simp add: MAXORDINAL_def)
  from T pre obtain res where res: "compute_sm2 738000 2 5 10 (1 / 2) = Inr res" by blast
  obtain r' i d n where "res = (r', i, d, n)" by (cases res) auto
  with res T have A: "\<exists>r i d n. compute_sm2 738000 2 5 10 (1 / 2) = Inr (r, i, d, n) \<and>
      1 \<le> i \<and> 1 / 10 \<le> d \<and> d \<le> 9 / 10"
    by blast
  have rows: "mastery_rows ?g ''k1'' = [(''c1'', 19 / 20, 3)]"
    by (simp add: mastery_rows_def)
  have ids: "\<forall>c\<in>set (concepts (update_concept_mastery_from_chunk ?g ''k1'' (1 / 10))).
      concept_id c = ''c1''"
    by (simp add: update_concept_mastery_from_chunk_def rows mastery_updates_def set_concept_def)
  have start: "\<forall>c\<in>set (concepts ?g). 0 \<le> mastery c \<and> mastery c \<le> 1"
    by simp
  from T have "\<forall>c\<in>set (concepts (update_concept_mastery_from_chunk ?g ''k1'' (1 / 10))).
       concept_id c \<in> fst ` set (mastery_rows ?g ''k1'') \<longrightarrow> 0 \<le> mastery c \<and> mastery c \<le> 1"
    by blast
  moreover from T start
  have "\<forall>c\<in>set (concepts (update_concept_mastery_from_chunk ?g ''k1'' (1 / 10))).
       0 \<le> mastery c \<and> mastery c \<le> 1"
    by blast
  ultimately have B: "\<forall>c\<in>set (concepts (update_concept_mastery_from_chunk ?g ''k1'' (1 / 10))).
       concept_id c = ''c1'' \<and> 0 \<le> mastery c \<and> mastery c \<le> 1"
    using ids by simp
  then have "list_all (\<lambda>c. concept_id c = ''c1'' \<and> 0 \<le> mastery c \<and> mastery c \<le> 1)
     (concepts (update_concept_mastery_from_chunk ?g ''k1'' (1 / 10)))"
    unfolding list_all_iff .
  with A show ?thesis by blast
qed


section \<open>Rejected review grades\<close>

text \<open>
  C10. A review whose grade is none of 0, 1, 2, 3 is answered with HTTP status 422 and
  nothing is written: the flashcard table and the graph store are as before, so the
  stored repetitions, interval, difficulty and next review date are unchanged and no
  mastery update is made.
\<close>

theorem review_bad_grade_rejected:
  assumes "grade \<notin> {0, 1, 2, 3}"
  shows "review_card today st cid grade = (Inl (HTTPException 422), st)"
  using assms by (simp add: review_card_def)

theorem review_bad_grade_rejected_witness:
  "review_card 738000
     \<lparr>flashcards = [\<lparr>card_id = ''f1'', document_id = ''d1'', chunk_id = Some ''k1'',
                     question = ''q'', answer = ''a'', difficulty = 3 / 10, interval = 6,
                     repetitions = 1, next_review = None\<rparr>],
      graph = \<lparr>concepts = [], extracted_from = []\<rparr>, kuzu_up = True\<rparr> ''f1'' 4 =
   (Inl (HTTPException 422),
    \<lparr>flashcards = [\<lparr>card_id = ''f1'', document_id = ''d1'', chunk_id = Some ''k1'',
                     question = ''q'', answer = ''a'', difficulty = 3 / 10, interval = 6,
                     repetitions = 1, next_review = None\<rparr>],
      graph = \<lparr>concepts = [], extracted_from = []\<rparr>, kuzu_up = True\<rparr>)"
  by (rule review_bad_grade_rejected) simp


section \<open>Properties of the chunker\<close>

lemma re_split_concat: "concat (re_split cur s) = cur @ s"
  by (induction cur s rule: re_split.induct) auto

lemma merge_parts_concat: "concat (map fst (merge_parts ps)) = concat ps"
  by (induction ps rule: merge_parts.induct) auto

lemma merge_parts_len: "(p, l) \<in> set (merge_parts ps) \<Longrightarrow> l = int (length p)"
  by (induction ps rule: merge_parts.induct) (auto split: if_splits)

lemma split_paragraphs_concat: "concat (map fst (split_paragraphs t)) = t"
  by (simp add: split_paragraphs_def merge_parts_concat re_split_concat)

lemma split_paragraphs_len: "(p, l) \<in> set (split_paragraphs t) \<Longrightarrow> l = int (length p)"
  by (auto simp: split_paragraphs_def dest: merge_parts_len)


lemma py_strip_empty_iff: "py_strip s = [] \<longleftrightarrow> (\<forall>x\<in>set s. isspace x)"
proof
  assume "py_strip s = []"
  then have "\<forall>x\<in>set (dropWhile isspace s). isspace x"
    by (simp add: py_strip_def dropWhile_eq_Nil_conv)
  then have "dropWhile isspace s = []"
    by (metis hd_dropWhile hd_in_set)
  then show "\<forall>x\<in>set s. isspace x" by (simp add: dropWhile_eq_Nil_conv)
next
  assume "\<forall>x\<in>set s. isspace x"
  then show "py_strip s = []"
    by (auto simp: py_strip_def dest: set_dropWhileD)
qed

lemma py_strip_append_nonempty:
  "py_strip b \<noteq> [] \<Longrightarrow> py_strip (a @ b) \<noteq> []" "py_strip a \<noteq> [] \<Longrightarrow> py_strip (a @ b) \<noteq> []"
  by (auto simp: py_strip_empty_iff)

lemma overlap_is_suffix:
  "\<exists>k. (if o_chars < int (length buf) then py_slice_from buf (- o_chars) else buf) = drop k buf"
proof (cases "o_chars < int (length buf)")
  case True
  then show ?thesis by (auto simp: py_slice_from_def)
next
  case False
  then have "buf = drop 0 buf" by simp
  with False show ?thesis by (metis (full_types))
qed


lemma in_text_extend: "in_text txt c \<Longrightarrow> in_text (txt @ ys) c"
  unfolding in_text_def
proof (elim exE conjE)
  fix a b r
  assume "txt = a @ b @ r" and rest: "char_start c = int (length a)"
    "char_end c = int (length a) + int (length b)" "content c = py_strip b" "content c \<noteq> []"
  then have "txt @ ys = a @ b @ (r @ ys)" by simp
  with rest show "\<exists>a b r. txt @ ys = a @ b @ r \<and> char_start c = int (length a) \<and>
        char_end c = int (length a) + int (length b) \<and> content c = py_strip b \<and> content c \<noteq> []"
    by blast
qed

lemma in_text_bounds:
  "in_text txt c \<Longrightarrow> 0 \<le> char_start c \<and> char_start c \<le> char_end c \<and> char_end c \<le> int (length txt)"
  by (auto simp: in_text_def)

lemma in_text_content:
  "in_text txt c \<Longrightarrow>
   content c = py_strip (take (nat (char_end c - char_start c)) (drop (nat (char_start c)) txt))"
  by (auto simp: in_text_def)

lemma take_ws_extend:
  assumes "\<forall>x\<in>set (take n txt). isspace x" and "n \<le> length txt"
  shows "\<forall>x\<in>set (take n (txt @ ys)). isspace x"
  using assms by simp

text \<open>A paragraph is appended to the buffer without closing a chunk.\<close>

lemma inv_append:
  assumes inv: "chunker_inv seen (chunks, buf, buf_start, text_cursor)"
    and ne: "chunks \<noteq> [] \<longrightarrow> py_strip (buf @ para) \<noteq> []"
  shows "chunker_inv (seen @ para) (chunks, buf @ para, buf_start, text_cursor + int (length para))"
proof -
  from inv obtain pre where pre: "seen = pre @ buf" "buf_start = int (length pre)"
      "chunks = [] \<longrightarrow> (\<forall>x\<in>set pre. isspace x)"
    and cur: "text_cursor = int (length seen)"
    and idx: "map chunk_index chunks = map int [0..<length chunks]"
    and suc: "successively link chunks"
    and itx: "\<forall>c\<in>set chunks. in_text seen c"
    and last: "chunks \<noteq> [] \<longrightarrow> char_start (last chunks) \<le> buf_start \<and>
           buf_start \<le> char_end (last chunks) \<and>
           (\<forall>x\<in>set (take (nat (char_start (hd chunks))) seen). isspace x)"
    unfolding chunker_inv_def by auto
  have 1: "text_cursor + int (length para) = int (length (seen @ para))"
    using cur by simp
  have 2: "\<exists>p. seen @ para = p @ (buf @ para) \<and> buf_start = int (length p) \<and>
               (chunks = [] \<longrightarrow> (\<forall>x\<in>set p. isspace x))"
    using pre by auto
  have 3: "\<forall>c\<in>set chunks. in_text (seen @ para) c"
    using itx in_text_extend by blast
  have 4: "chunks \<noteq> [] \<longrightarrow> (\<forall>x\<in>set (take (nat (char_start (hd chunks))) (seen @ para)). isspace x)"
  proof
    assume c: "chunks \<noteq> []"
    then have "hd chunks \<in> set chunks" by simp
    with itx have "char_start (hd chunks) \<le> int (length seen)"
      using in_text_bounds by fastforce
    then have "nat (char_start (hd chunks)) \<le> length seen" by simp
    with last c show "\<forall>x\<in>set (take (nat (char_start (hd chunks))) (seen @ para)). isspace x"
      by simp
  qed
  show ?thesis
    unfolding chunker_inv_def using 1 2 3 4 idx suc last ne by simp
qed

lemma successively_snoc:
  "successively P (xs @ [x]) \<longleftrightarrow> successively P xs \<and> (xs = [] \<or> P (last xs) x)"
  by (simp add: successively_append_iff)

lemma inv_emit:
  assumes inv: "chunker_inv seen (chunks, buf, buf_start, text_cursor)"
    and para: "py_strip para \<noteq> []"
  shows "chunker_inv (seen @ para)
           (emit_chunk chunks buf buf_start po, drop k buf @ para,
            buf_start + int (length buf) - int (length (drop k buf)),
            text_cursor + int (length para))"
proof -
  from inv obtain pre where pre: "seen = pre @ buf" "buf_start = int (length pre)"
      "chunks = [] \<longrightarrow> (\<forall>x\<in>set pre. isspace x)"
    and cur: "text_cursor = int (length seen)"
    and idx: "map chunk_index chunks = map int [0..<length chunks]"
    and suc: "successively link chunks"
    and itx: "\<forall>c\<in>set chunks. in_text seen c"
    and lst: "chunks \<noteq> [] \<longrightarrow> py_strip buf \<noteq> [] \<and> char_start (last chunks) \<le> buf_start \<and>
           buf_start \<le> char_end (last chunks) \<and>
           (\<forall>x\<in>set (take (nat (char_start (hd chunks))) seen). isspace x)"
    unfolding chunker_inv_def by auto
  let ?pre = "pre @ take k buf"
  let ?bs = "buf_start + int (length buf) - int (length (drop k buf))"
  have split: "seen @ para = ?pre @ (drop k buf @ para)"
    using pre(1) by simp
  have bs: "?bs = int (length ?pre)"
    using pre(2) by (simp add: min_def)
  have bs_lo: "buf_start \<le> ?bs" and bs_hi: "?bs \<le> buf_start + int (length buf)"
    by simp_all
  have cur': "text_cursor + int (length para) = int (length (seen @ para))"
    using cur by simp
  have nonws: "py_strip (drop k buf @ para) \<noteq> []"
    using para by (rule py_strip_append_nonempty(1))
  show ?thesis
  proof (cases "py_strip buf = []")
    case True
    with lst have empty: "chunks = []" by blast
    from True have "\<forall>x\<in>set buf. isspace x" by (simp add: py_strip_empty_iff)
    then have "\<forall>x\<in>set (take k buf). isspace x" by (meson in_set_takeD)
    with pre(3) empty have ws: "\<forall>x\<in>set ?pre. isspace x" by auto
    have em: "emit_chunk chunks buf buf_start po = []"
      using True empty by (simp add: emit_chunk_def)
    have "\<exists>p. seen @ para = p @ (drop k buf @ para) \<and> ?bs = int (length p) \<and> (\<forall>x\<in>set p. isspace x)"
      using split bs ws by blast
    then show ?thesis
      unfolding chunker_inv_def em using cur' by simp
  next
    case False
    define new where "new = \<lparr>chunk_index = int (length chunks), content = py_strip buf,
          page_number = lookup_page buf_start po,
          char_start = buf_start, char_end = buf_start + int (length buf),
          token_count = int (length (py_strip buf)) div 4\<rparr>"
    have em: "emit_chunk chunks buf buf_start po = chunks @ [new]"
      using False by (simp add: emit_chunk_def new_def)
    have new_sel: "chunk_index new = int (length chunks)" "char_start new = buf_start"
      "char_end new = buf_start + int (length buf)" "content new = py_strip buf"
      by (simp_all add: new_def)
    have new_in: "in_text (seen @ para) new"
      unfolding in_text_def
      using pre(1,2) False new_sel by (intro exI [of _ pre] exI [of _ buf] exI [of _ para]) simp
    have 1: "\<exists>p. seen @ para = p @ (drop k buf @ para) \<and> ?bs = int (length p) \<and>
               (chunks @ [new] = [] \<longrightarrow> (\<forall>x\<in>set p. isspace x))"
      using split bs by blast
    have 2: "map chunk_index (chunks @ [new]) = map int [0..<length (chunks @ [new])]"
      using idx new_sel by simp
    have 3: "successively link (chunks @ [new])"
    proof (cases "chunks = []")
      case True
      then show ?thesis by simp
    next
      case ne: False
      then have "last chunks \<in> set chunks" by simp
      with itx have "char_end (last chunks) \<le> int (length seen)"
        using in_text_bounds by fastforce
      then have "char_end (last chunks) \<le> char_end new"
        using pre(1,2) new_sel by simp
      with lst ne have "link (last chunks) new"
        by (simp add: link_def new_sel)
      with suc show ?thesis by (simp add: successively_snoc)
    qed
    have 4: "\<forall>c\<in>set (chunks @ [new]). in_text (seen @ para) c"
      using itx in_text_extend new_in by auto
    have 5: "\<forall>x\<in>set (take (nat (char_start (hd (chunks @ [new])))) (seen @ para)). isspace x"
    proof (cases "chunks = []")
      case True
      then have "take (nat (char_start (hd (chunks @ [new])))) (seen @ para) = pre"
        using pre(1,2) new_sel by simp
      with pre(3) True show ?thesis by simp
    next
      case ne: False
      then have "hd chunks \<in> set chunks" by simp
      with itx have "char_start (hd chunks) \<le> int (length seen)"
        using in_text_bounds by fastforce
      then have "nat (char_start (hd chunks)) \<le> length seen" by simp
      with lst ne show ?thesis by simp
    qed
    have 6: "char_start (last (chunks @ [new])) \<le> ?bs \<and> ?bs \<le> char_end (last (chunks @ [new]))"
      using bs_lo bs_hi new_sel by simp
    show ?thesis
      unfolding chunker_inv_def em using cur' 1 2 3 4 5 6 nonws by simp
  qed
qed

lemma chunk_step_inv:
  assumes inv: "chunker_inv seen st" and len: "snd pp = int (length (fst pp))"
  shows "chunker_inv (seen @ fst pp) (chunk_step t ov po st pp)"
proof -
  obtain chunks buf buf_start text_cursor where st: "st = (chunks, buf, buf_start, text_cursor)"
    by (cases st) auto
  obtain para para_len where pp: "pp = (para, para_len)" by (cases pp) auto
  with len have pl: "para_len = int (length para)" by simp
  from inv st have lst: "chunks \<noteq> [] \<longrightarrow> py_strip buf \<noteq> []"
    unfolding chunker_inv_def by simp
  show ?thesis
  proof (cases "py_strip para = []")
    case True
    have "chunks \<noteq> [] \<longrightarrow> py_strip (buf @ para) \<noteq> []"
      using lst py_strip_append_nonempty(2) by blast
    from inv_append [OF inv [unfolded st] this] True show ?thesis
      by (simp add: chunk_step_def st pp pl)
  next
    case False
    show ?thesis
    proof (cases "buf \<noteq> [] \<and> t < int (length buf) + int (length para)")
      case True
      obtain k where k: "(if ov < int (length buf) then py_slice_from buf (- ov) else buf) = drop k buf"
        using overlap_is_suffix by blast
      from inv_emit [OF inv [unfolded st] False, of po k] True False k show ?thesis
        by (simp add: chunk_step_def st pp pl Let_def)
    next
      case nf: False
      have "chunks \<noteq> [] \<longrightarrow> py_strip (buf @ para) \<noteq> []"
        using False py_strip_append_nonempty(1) by blast
      from inv_append [OF inv [unfolded st] this] False nf show ?thesis
        by (auto simp add: chunk_step_def st pp pl)
    qed
  qed
qed

lemma chunk_loop_inv:
  assumes "chunker_inv seen st" and "\<forall>pp\<in>set ps. snd pp = int (length (fst pp))"
  shows "chunker_inv (seen @ concat (map fst ps)) (foldl (chunk_step t ov po) st ps)"
  using assms
proof (induction ps arbitrary: seen st)
  case Nil
  then show ?case by simp
next
  case (Cons pp ps)
  from Cons.prems have "chunker_inv (seen @ fst pp) (chunk_step t ov po st pp)"
    by (intro chunk_step_inv) auto
  from Cons.IH [OF this] Cons.prems(2) show ?case by simp
qed

lemma chunker_inv_init: "chunker_inv [] ([], [], 0, 0)"
  by (simp add: chunker_inv_def)

lemma link_end_mono:
  "successively link (c # cs) \<Longrightarrow> char_end c \<le> char_end (last (c # cs))"
proof (induction cs arbitrary: c)
  case Nil
  then show ?case by simp
next
  case (Cons d ds)
  then have "link c d" and "successively link (d # ds)" by simp_all
  with Cons.IH [of d] show ?case by (simp add: link_def)
qed

lemma covered_chain:
  assumes "successively link (c # cs)" and "\<forall>x\<in>set (c # cs). char_start x \<le> char_end x"
  shows "covered (c # cs) = {char_start c..<char_end (last (c # cs))}"
  using assms
proof (induction cs arbitrary: c)
  case Nil
  then show ?case by (simp add: covered_def)
next
  case (Cons d ds)
  then have l: "link c d" and s: "successively link (d # ds)" by simp_all
  from Cons.prems(2) have "\<forall>x\<in>set (d # ds). char_start x \<le> char_end x" by simp
  from Cons.IH [OF s this] have ih: "covered (d # ds) = {char_start d..<char_end (last (d # ds))}" .
  have e: "char_end d \<le> char_end (last (d # ds))" using s by (rule link_end_mono)
  have "covered (c # d # ds) = {char_start c..<char_end c} \<union> covered (d # ds)"
    by (simp add: covered_def)
  also have "\<dots> = {char_start c..<char_end (last (d # ds))}"
    unfolding ih using l e by (auto simp: link_def)
  finally show ?case by simp
qed

lemma chunk_final:
  fixes po :: "(int \<times> int) list"
  assumes inv: "chunker_inv ft (chunks, buf, buf_start, text_cursor)"
  defines "cs \<equiv> (if py_strip buf \<noteq> [] then emit_chunk chunks buf buf_start po else chunks)"
  shows "map chunk_index cs = map int [0..<length cs]"
    and "successively link cs"
    and "\<forall>c\<in>set cs. in_text ft c"
    and "cs \<noteq> [] \<Longrightarrow> char_end (last cs) = int (length ft)"
    and "cs \<noteq> [] \<Longrightarrow> \<forall>x\<in>set (take (nat (char_start (hd cs))) ft). isspace x"
    and "cs = [] \<Longrightarrow> \<forall>x\<in>set ft. isspace x"
proof -
  from inv obtain pre where pre: "ft = pre @ buf" "buf_start = int (length pre)"
      "chunks = [] \<longrightarrow> (\<forall>x\<in>set pre. isspace x)"
    and idx: "map chunk_index chunks = map int [0..<length chunks]"
    and suc: "successively link chunks"
    and itx: "\<forall>c\<in>set chunks. in_text ft c"
    and lst: "chunks \<noteq> [] \<longrightarrow> py_strip buf \<noteq> [] \<and> char_start (last chunks) \<le> buf_start \<and>
           buf_start \<le> char_end (last chunks) \<and>
           (\<forall>x\<in>set (take (nat (char_start (hd chunks))) ft). isspace x)"
    unfolding chunker_inv_def by auto
  show "map chunk_index cs = map int [0..<length cs]"
    using idx by (simp add: cs_def emit_chunk_def)
  show "\<forall>c\<in>set cs. in_text ft c"
  proof (cases "py_strip buf = []")
    case True
    then show ?thesis using itx by (simp add: cs_def)
  next
    case False
    have "in_text ft \<lparr>chunk_index = int (length chunks), content = py_strip buf,
          page_number = lookup_page buf_start po,
          char_start = buf_start, char_end = buf_start + int (length buf),
          token_count = int (length (py_strip buf)) div 4\<rparr>"
      unfolding in_text_def
      using pre(1,2) False by (intro exI [of _ pre] exI [of _ buf] exI [of _ "[]"]) simp
    with False itx show ?thesis by (simp add: cs_def emit_chunk_def)
  qed
  show "successively link cs"
  proof (cases "py_strip buf = [] \<or> chunks = []")
    case True
    then show ?thesis using suc by (auto simp: cs_def emit_chunk_def)
  next
    case False
    then have "last chunks \<in> set chunks" by simp
    with itx have "char_end (last chunks) \<le> int (length ft)"
      using in_text_bounds by fastforce
    then have "char_end (last chunks) \<le> buf_start + int (length buf)"
      using pre(1,2) by simp
    with lst False suc show ?thesis
      by (simp add: cs_def emit_chunk_def successively_snoc link_def)
  qed
  show "char_end (last cs) = int (length ft)" if "cs \<noteq> []"
  proof (cases "py_strip buf = []")
    case True
    with lst have "chunks = []" by blast
    with True that show ?thesis by (simp add: cs_def)
  next
    case False
    then show ?thesis using pre(1,2) by (simp add: cs_def emit_chunk_def)
  qed
  show "\<forall>x\<in>set (take (nat (char_start (hd cs))) ft). isspace x" if "cs \<noteq> []"
  proof (cases "chunks = []")
    case True
    with that have "py_strip buf \<noteq> []" by (auto simp: cs_def)
    with True have "take (nat (char_start (hd cs))) ft = pre"
      using pre(1,2) by (simp add: cs_def emit_chunk_def)
    with pre(3) True show ?thesis by simp
  next
    case False
    then have "hd cs = hd chunks" by (simp add: cs_def emit_chunk_def)
    with lst False show ?thesis by simp
  qed
  show "\<forall>x\<in>set ft. isspace x" if "cs = []"
  proof -
    from that have "chunks = []" and "py_strip buf = []"
      by (auto simp: cs_def emit_chunk_def split: if_splits)
    with pre(1,3) show ?thesis by (auto simp: py_strip_empty_iff)
  qed
qed

lemma chunk_pages_loop:
  "chunker_inv ft (foldl (chunk_step t ov po) ([], [], 0, 0) (split_paragraphs ft))"
proof -
  have "\<forall>pp\<in>set (split_paragraphs ft). snd pp = int (length (fst pp))"
  proof
    fix pp assume "pp \<in> set (split_paragraphs ft)"
    then have "(fst pp, snd pp) \<in> set (split_paragraphs ft)" by simp
    then show "snd pp = int (length (fst pp))" by (rule split_paragraphs_len)
  qed
  from chunk_loop_inv [OF chunker_inv_init this, of t ov po] show ?thesis
    by (simp add: split_paragraphs_concat)
qed

lemma chunk_pages_cases:
  obtains (empty) "chunk_pages pages t ov = []" "\<forall>x\<in>set (fst (build_full_text pages)). isspace x"
  | (run) chunks buf buf_start text_cursor po where
      "chunker_inv (fst (build_full_text pages)) (chunks, buf, buf_start, text_cursor)"
      "chunk_pages pages t ov =
         (if py_strip buf \<noteq> [] then emit_chunk chunks buf buf_start po else chunks)"
proof -
  obtain ft po where b: "build_full_text pages = (ft, po)" by (cases "build_full_text pages") auto
  show ?thesis
  proof (cases "pages = [] \<or> py_strip ft = []")
    case True
    then have "chunk_pages pages t ov = []"
      unfolding chunk_pages_def b by auto
    moreover from True b have "\<forall>x\<in>set (fst (build_full_text pages)). isspace x"
      by (auto simp: py_strip_empty_iff build_full_text_def)
    ultimately show ?thesis by (rule empty)
  next
    case False
    obtain chunks buf buf_start text_cursor where
      f: "foldl (chunk_step t ov po) ([], [], 0, 0) (split_paragraphs ft) = (chunks, buf, buf_start, text_cursor)"
      using prod_cases4 by blast
    have 1: "chunker_inv (fst (build_full_text pages)) (chunks, buf, buf_start, text_cursor)"
      using chunk_pages_loop [of ft t ov po] unfolding f b by simp
    have 2: "chunk_pages pages t ov =
         (if py_strip buf \<noteq> [] then emit_chunk chunks buf buf_start po else chunks)"
      unfolding chunk_pages_def b using False by (simp add: f)
    from 1 2 show ?thesis by (rule run)
  qed
qed

lemmas chunk_eval = chunk_pages_def build_full_text_def add_page_def NL_def split_paragraphs_def
  matches_delim_def chunk_step_def emit_chunk_def py_slice_from_def lookup_page_def py_strip_def
  isspace_def Let_def

text \<open>
  C8 as stated: the covered ranges are claimed to reconstruct the whole text for every
  page list and all tunables. One page with the text of three newlines and "Hi", a
  target of 4 and an overlap of 1: the buffer of three newlines is closed when "Hi"
  arrives, trims to nothing and is dropped, only its last character is kept as
  overlap, and the single chunk covers the offsets 2 to 5 of the six characters.
\<close>

theorem chunk_cover_counterexample:
  "chunk_pages [\<lparr>pt_page_number = 1, pt_text = [10, 10, 10, 72, 105]\<rparr>] 4 1 =
     [\<lparr>chunk_index = 0, content = [72, 105], page_number = Some 1, char_start = 2,
       char_end = 6, token_count = 0\<rparr>] \<and>
   fst (build_full_text [\<lparr>pt_page_number = 1, pt_text = [10, 10, 10, 72, 105]\<rparr>]) =
     [10, 10, 10, 72, 105, 10] \<and>
   covered (chunk_pages [\<lparr>pt_page_number = 1, pt_text = [10, 10, 10, 72, 105]\<rparr>] 4 1) \<noteq>
     {0..<int (length (fst (build_full_text
        [\<lparr>pt_page_number = 1, pt_text = [10, 10, 10, 72, 105]\<rparr>])))}"
proof -
  have ev: "chunk_pages [\<lparr>pt_page_number = 1, pt_text = [10, 10, 10, 72, 105]\<rparr>] 4 1 =
     [\<lparr>chunk_index = 0, content = [72, 105], page_number = Some 1, char_start = 2,
       char_end = 6, token_count = 0\<rparr>]"
    by (simp add: chunk_eval)
  have ft: "fst (build_full_text [\<lparr>pt_page_number = 1, pt_text = [10, 10, 10, 72, 105]\<rparr>]) =
     [10, 10, 10, 72, 105, 10]"
    by (simp add: chunk_eval)
  have "(0::int) \<notin> {2..<6}" and "(0::int) \<in> {0..<6}" by simp_all
  then have "{2..<6} \<noteq> {0..<(6::int)}" by blast
  then show ?thesis
    unfolding ev ft by (simp add: covered_def)
qed

text \<open>
  C8 amended. For every page list and all tunables the chunks returned by the Chunker
  have \<open>chunk_index\<close> 0, 1, 2, ...; every chunk is not empty and is the trimmed text of
  its range \<open>[char_start, char_end)\<close> of the concatenated text; neighbouring ranges
  leave no gap (the next one starts inside the previous one and ends no earlier); when
  there is a chunk, the ranges together cover the text from the start of the first chunk
  to the end of the text, and everything before the first chunk is whitespace; when
  there is no chunk, the whole text is whitespace. So the ranges reconstruct the text
  up to a whitespace-only prefix.
\<close>

theorem chunk_pages_coverage:
  fixes pages t ov
  defines "cs \<equiv> chunk_pages pages t ov" and "ft \<equiv> fst (build_full_text pages)"
  shows "map chunk_index cs = map int [0..<length cs] \<and>
         successively link cs \<and>
         (\<forall>c\<in>set cs. content c \<noteq> [] \<and>
            content c = py_strip (take (nat (char_end c - char_start c)) (drop (nat (char_start c)) ft))) \<and>
         (cs \<noteq> [] \<longrightarrow>
            0 \<le> char_start (hd cs) \<and>
            covered cs = {char_start (hd cs)..<int (length ft)} \<and>
            (\<forall>x\<in>set (take (nat (char_start (hd cs))) ft). isspace x)) \<and>
         (cs = [] \<longrightarrow> (\<forall>x\<in>set ft. isspace x))"
proof (cases rule: chunk_pages_cases [of pages t ov])
  case empty
  then show ?thesis by (simp add: cs_def ft_def)
next
  case (run chunks buf buf_start text_cursor po)
  note F = chunk_final [OF run(1), where po = po, folded run(2), folded cs_def ft_def]
  have itx: "\<forall>c\<in>set cs. in_text ft c" using F(3) .
  have A: "\<forall>c\<in>set cs. content c \<noteq> [] \<and>
            content c = py_strip (take (nat (char_end c - char_start c)) (drop (nat (char_start c)) ft))"
  proof
    fix c assume "c \<in> set cs"
    with itx have i: "in_text ft c" by blast
    then have "content c \<noteq> []" by (auto simp: in_text_def)
    with in_text_content [OF i] show "content c \<noteq> [] \<and>
            content c = py_strip (take (nat (char_end c - char_start c)) (drop (nat (char_start c)) ft))"
      by simp
  qed
  have B: "0 \<le> char_start (hd cs) \<and> covered cs = {char_start (hd cs)..<int (length ft)}" if "cs \<noteq> []"
  proof -
    from that obtain c cs' where c: "cs = c # cs'" by (cases cs) auto
    have bnd: "\<forall>x\<in>set (c # cs'). char_start x \<le> char_end x"
      using itx in_text_bounds unfolding c by blast
    have "covered (c # cs') = {char_start c..<char_end (last (c # cs'))}"
      using F(2) bnd unfolding c by (rule covered_chain)
    moreover have "char_end (last (c # cs')) = int (length ft)"
      using F(4) [OF that] unfolding c .
    moreover have "0 \<le> char_start c"
      using itx in_text_bounds unfolding c by fastforce
    ultimately show ?thesis unfolding c by simp
  qed
  from F(1) F(2) A B F(5) F(6) show ?thesis by blast
qed

theorem chunk_pages_coverage_witness:
  "map chunk_index (chunk_pages
      [\<lparr>pt_page_number = 1, pt_text = [65, 46, 10, 10, 66, 46]\<rparr>,
       \<lparr>pt_page_number = 2, pt_text = [67, 46, 10, 10, 66, 46, 10, 10, 10, 70, 71, 72]\<rparr>] 5 2) =
     [0, 1, 2, 3] \<and>
   covered (chunk_pages
      [\<lparr>pt_page_number = 1, pt_text = [65, 46, 10, 10, 66, 46]\<rparr>,
       \<lparr>pt_page_number = 2, pt_text = [67, 46, 10, 10, 66, 46, 10, 10, 10, 70, 71, 72]\<rparr>] 5 2) =
     {0..<20} \<and>
   covered (chunk_pages [\<lparr>pt_page_number = 1, pt_text = [10, 10, 10, 72, 105]\<rparr>] 4 1) = {2..<6} \<and>
   list_all isspace
     (take 2 (fst (build_full_text [\<lparr>pt_page_number = 1, pt_text = [10, 10, 10, 72, 105]\<rparr>])))"
proof -
  let ?P = "[\<lparr>pt_page_number = 1, pt_text = [65, 46, 10, 10, 66, 46]\<rparr>,
       \<lparr>pt_page_number = 2, pt_text = [67, 46, 10, 10, 66, 46, 10, 10, 10, 70, 71, 72]\<rparr>]"
  let ?Q = "[\<lparr>pt_page_number = 1, pt_text = [10, 10, 10, 72, 105]\<rparr>]"
  have lenP: "length (chunk_pages ?P 5 2) = 4" and hdP: "char_start (hd (chunk_pages ?P 5 2)) = 0"
    by (simp_all add: chunk_eval)
  have ftP: "length (fst (build_full_text ?P)) = 20"
    by (simp add: chunk_eval)
  have lenQ: "chunk_pages ?Q 4 1 \<noteq> []" and hdQ: "char_start (hd (chunk_pages ?Q 4 1)) = 2"
    by (simp_all add: chunk_eval)
  have ftQ: "length (fst (build_full_text ?Q)) = 6"
    by (simp add: chunk_eval)
  have neP: "chunk_pages ?P 5 2 \<noteq> []" using lenP by auto
  note TP = chunk_pages_coverage [of ?P 5 2]
  note TQ = chunk_pages_coverage [of ?Q 4 1]
  from TP have "map chunk_index (chunk_pages ?P 5 2) = map int [0..<length (chunk_pages ?P 5 2)]"
    by blast
  then have 1: "map chunk_index (chunk_pages ?P 5 2) = [0, 1, 2, 3]"
    unfolding lenP by (simp add: upt_rec)
  from TP neP have "covered (chunk_pages ?P 5 2) =
      {char_start (hd (chunk_pages ?P 5 2))..<int (length (fst (build_full_text ?P)))}"
    by blast
  then have 2: "covered (chunk_pages ?P 5 2) = {0..<20}"
    unfolding hdP ftP by simp
  from TQ lenQ have "covered (chunk_pages ?Q 4 1) =
      {char_start (hd (chunk_pages ?Q 4 1))..<int (length (fst (build_full_text ?Q)))}"
    and "\<forall>x\<in>set (take (nat (char_start (hd (chunk_pages ?Q 4 1)))) (fst (build_full_text ?Q))). isspace x"
    by blast+
  then have 3: "covered (chunk_pages ?Q 4 1) = {2..<6}"
    and 4: "list_all isspace (take 2 (fst (build_full_text ?Q)))"
    unfolding hdQ ftQ list_all_iff by simp_all
  from 1 2 3 4 show ?thesis by blast
qed


section \<open>Which chunks the LLM sub-stages process\<close>

lemma chunk_loop_prefix:
  "prefix (fst (chunk_loop chat k n rows)) (filter long_enough rows)"
proof (induction rows arbitrary: k n)
  case Nil
  then show ?case by simp
next
  case (Cons r rows)
  show ?case
  proof (cases "long_enough r")
    case False
    then show ?thesis using Cons.IH [of k n] by (simp add: long_enough_def)
  next
    case True
    then have l: "\<not> length (content (row_chunk r)) < MIN_CHUNK_CHARS"
      by (simp add: long_enough_def)
    show ?thesis
    proof (cases "chat k")
      case Unavailable
      with True l show ?thesis by simp
    next
      case CallFailed
      with True l Cons.IH [of "Suc k" n] show ?thesis by (simp add: case_prod_unfold)
    next
      case BodyRaised
      with True l show ?thesis by simp
    next
      case (Handled m)
      with True l Cons.IH [of "Suc k" "n + int m"] show ?thesis by (simp add: case_prod_unfold)
    qed
  qed
qed

lemma chunk_loop_all:
  assumes "keeps_going chat"
  shows "fst (chunk_loop chat k n rows) = filter long_enough rows"
proof (induction rows arbitrary: k n)
  case Nil
  then show ?case by simp
next
  case (Cons r rows)
  show ?case
  proof (cases "long_enough r")
    case False
    then show ?thesis using Cons.IH [of k n] by (simp add: long_enough_def)
  next
    case True
    then have l: "\<not> length (content (row_chunk r)) < MIN_CHUNK_CHARS"
      by (simp add: long_enough_def)
    from assms have "chat k \<noteq> Unavailable" "chat k \<noteq> BodyRaised"
      by (simp_all add: keeps_going_def)
    then show ?thesis
      using True l Cons.IH [of "Suc k"]
      by (cases "chat k") (simp_all add: case_prod_unfold)
  qed
qed

lemma select_chunks_sorted:
  "sorted (map (\<lambda>r. chunk_index (row_chunk r)) (select_chunks db d cap))"
  unfolding select_chunks_def take_map [symmetric]
  by (rule sorted_wrt_take) simp

lemma select_chunks_length: "length (select_chunks db d cap) \<le> cap"
  by (simp add: select_chunks_def)

lemma select_chunks_set:
  "set (select_chunks db d cap) \<subseteq> {r \<in> set (db_chunks db). row_document_id r = d \<and> has_embedding r}"
proof -
  have "set (select_chunks db d cap) \<subseteq>
      set (sort_key (\<lambda>r. chunk_index (row_chunk r))
                 (filter (\<lambda>r. row_document_id r = d \<and> has_embedding r) (db_chunks db)))"
    unfolding select_chunks_def by (rule set_take_subset)
  then show ?thesis by auto
qed

lemma concept_called_prefix:
  "prefix (fst (fst (extract_concepts_for_document w db d)))
          (filter long_enough (select_chunks db d CONCEPT_MAX_CHUNKS))"
  using chunk_loop_prefix [of "concept_chat w d" 0 0 "select_chunks db d CONCEPT_MAX_CHUNKS"]
  by (auto simp: extract_concepts_for_document_def Let_def split: prod.splits outcome.splits)

lemma card_called_prefix:
  "prefix (fst (fst (generate_flashcards_for_document w db d)))
          (filter long_enough (select_chunks db d FLASHCARD_MAX_CHUNKS))"
  using chunk_loop_prefix [of "card_chat w d" 0 0 "select_chunks db d FLASHCARD_MAX_CHUNKS"]
  by (auto simp: generate_flashcards_for_document_def Let_def)

lemma concept_called_all:
  assumes "graph_store_up w" and "keeps_going (concept_chat w d)"
  shows "fst (fst (extract_concepts_for_document w db d)) =
         filter long_enough (select_chunks db d CONCEPT_MAX_CHUNKS)"
  using assms(1) chunk_loop_all [OF assms(2), of 0 0 "select_chunks db d CONCEPT_MAX_CHUNKS"]
  by (auto simp: extract_concepts_for_document_def Let_def split: prod.splits outcome.splits)

lemma card_called_all:
  assumes "keeps_going (card_chat w d)"
  shows "fst (fst (generate_flashcards_for_document w db d)) =
         filter long_enough (select_chunks db d FLASHCARD_MAX_CHUNKS)"
  using chunk_loop_all [OF assms, of 0 0 "select_chunks db d FLASHCARD_MAX_CHUNKS"]
  by (auto simp: generate_flashcards_for_document_def Let_def)

lemma select_chunks_lowest:
  assumes r: "r \<in> set (select_chunks db d cap)"
    and r': "r' \<in> set (db_chunks db)" "row_document_id r' = d" "has_embedding r'"
      "r' \<notin> set (select_chunks db d cap)"
  shows "chunk_index (row_chunk r) \<le> chunk_index (row_chunk r')"
proof -
  let ?S = "sort_key (\<lambda>r. chunk_index (row_chunk r))
              (filter (\<lambda>r. row_document_id r = d \<and> has_embedding r) (db_chunks db))"
  have sel: "select_chunks db d cap = take cap ?S" by (simp add: select_chunks_def)
  have "sorted (map (\<lambda>r. chunk_index (row_chunk r)) (take cap ?S @ drop cap ?S))"
    by simp
  then have le: "\<forall>x\<in>set (take cap ?S). \<forall>y\<in>set (drop cap ?S).
      chunk_index (row_chunk x) \<le> chunk_index (row_chunk y)"
    unfolding map_append sorted_append by auto
  from r' have "r' \<in> set ?S" by simp
  then have "r' \<in> set (take cap ?S) \<union> set (drop cap ?S)"
    by (metis append_take_drop_id set_append)
  with r'(4) have "r' \<in> set (drop cap ?S)" by (simp add: sel)
  with le r show ?thesis by (simp add: sel)
qed

lemmas demo_eval = demo_db_def demo_world_def demo_chunk_def select_chunks_def
  extract_concepts_for_document_def generate_flashcards_for_document_def
  CONCEPT_MAX_CHUNKS_def FLASHCARD_MAX_CHUNKS_def MIN_CHUNK_CHARS_def Let_def

lemma demo_called:
  "map row_id (fst (fst (extract_concepts_for_document demo_world demo_db ''d''))) = [''r0'', ''r1'']"
  "map row_id (fst (fst (generate_flashcards_for_document demo_world demo_db ''d''))) = [''r0'', ''r1'']"
  by (simp_all add: demo_eval)

text \<open>
  C9 as stated: both sub-stages are claimed to go through the chunks in
  most-recent-chunk order. In the example store the document \<open>d\<close> has embedded chunks
  with the indices 1, 0 and 2 (the last too short); both sub-stages call the text
  generation service for index 0 first and index 1 second, the oldest chunk first.
\<close>

theorem substage_order_counterexample:
  "map (\<lambda>r. chunk_index (row_chunk r))
     (fst (fst (extract_concepts_for_document demo_world demo_db ''d''))) = [0, 1] \<and>
   map (\<lambda>r. chunk_index (row_chunk r))
     (fst (fst (generate_flashcards_for_document demo_world demo_db ''d''))) = [0, 1] \<and>
   \<not> most_recent_order (fst (fst (extract_concepts_for_document demo_world demo_db ''d''))) \<and>
   \<not> most_recent_order (fst (fst (generate_flashcards_for_document demo_world demo_db ''d'')))"
  by (simp add: demo_eval most_recent_order_def)

text \<open>
  C9 amended. Both sub-stages read the embedded chunks of the document in ascending
  order of \<open>chunk_index\<close>, the lowest index first, and no more than a cap of them (20 for
  concept extraction, 10 for flashcard generation): a chunk beyond the cap has an index
  at least as high as every chunk read. The chunks for which the text generation
  service is called are, in that order, an initial part of the read chunks that have at
  least 100 characters: every shorter chunk is skipped, and the rest of the list is
  given up only when the service is unavailable or an exception leaves the loop (or,
  for concepts, the graph store is down); otherwise all of them are processed.
\<close>

theorem llm_substages_chunk_selection:
  "sorted (map (\<lambda>r. chunk_index (row_chunk r)) (select_chunks db d cap)) \<and>
   length (select_chunks db d cap) \<le> cap \<and>
   set (select_chunks db d cap) \<subseteq>
     {r \<in> set (db_chunks db). row_document_id r = d \<and> has_embedding r} \<and>
   (\<forall>r\<in>set (select_chunks db d cap). \<forall>r'\<in>set (db_chunks db).
      row_document_id r' = d \<and> has_embedding r' \<and> r' \<notin> set (select_chunks db d cap) \<longrightarrow>
      chunk_index (row_chunk r) \<le> chunk_index (row_chunk r')) \<and>
   CONCEPT_MAX_CHUNKS = 20 \<and> FLASHCARD_MAX_CHUNKS = 10 \<and> MIN_CHUNK_CHARS = 100 \<and>
   prefix (fst (fst (extract_concepts_for_document w db d)))
          (filter long_enough (select_chunks db d CONCEPT_MAX_CHUNKS)) \<and>
   prefix (fst (fst (generate_flashcards_for_document w db d)))
          (filter long_enough (select_chunks db d FLASHCARD_MAX_CHUNKS)) \<and>
   (graph_store_up w \<and> keeps_going (concept_chat w d) \<longrightarrow>
      fst (fst (extract_concepts_for_document w db d)) =
      filter long_enough (select_chunks db d CONCEPT_MAX_CHUNKS)) \<and>
   (keeps_going (card_chat w d) \<longrightarrow>
      fst (fst (generate_flashcards_for_document w db d)) =
      filter long_enough (select_chunks db d FLASHCARD_MAX_CHUNKS))"
  using select_chunks_sorted [of db d cap] select_chunks_length [of db d cap]
    select_chunks_set [of db d cap] select_chunks_lowest [of _ db d cap]
    concept_called_prefix [of w db d] card_called_prefix [of w db d]
    concept_called_all [of w d db] card_called_all [of w d db]
  by (simp add: CONCEPT_MAX_CHUNKS_def FLASHCARD_MAX_CHUNKS_def MIN_CHUNK_CHARS_def)

theorem llm_substages_chunk_selection_witness:
  "map row_id (select_chunks demo_db ''d'' 2) = [''r0'', ''r1''] \<and>
   map row_id (fst (fst (extract_concepts_for_document demo_world demo_db ''d''))) = [''r0'', ''r1''] \<and>
   map row_id (fst (fst (generate_flashcards_for_document demo_world demo_db ''d''))) = [''r0'', ''r1''] \<and>
   map row_id (filter long_enough (select_chunks demo_db ''d'' CONCEPT_MAX_CHUNKS)) = [''r0'', ''r1''] \<and>
   map row_id (filter long_enough (select_chunks demo_db ''d'' FLASHCARD_MAX_CHUNKS)) = [''r0'', ''r1'']"
proof -
  note T = llm_substages_chunk_selection [of demo_db "''d''" 2 demo_world]
  have g: "graph_store_up demo_world \<and> keeps_going (concept_chat demo_world ''d'')"
    and c: "keeps_going (card_chat demo_world ''d'')"
    by (simp_all add: demo_world_def keeps_going_def)
  from T g have 1: "fst (fst (extract_concepts_for_document demo_world demo_db ''d'')) =
      filter long_enough (select_chunks demo_db ''d'' CONCEPT_MAX_CHUNKS)"
    by blast
  from T c have 2: "fst (fst (generate_flashcards_for_document demo_world demo_db ''d'')) =
      filter long_enough (select_chunks demo_db ''d'' FLASHCARD_MAX_CHUNKS)"
    by blast
  have 3: "map row_id (select_chunks demo_db ''d'' 2) = [''r0'', ''r1'']"
    by (simp add: demo_eval)
  from demo_called 1 2 3 show ?thesis by simp
qed


section \<open>The recovery sweep and the task registry\<close>

lemma start_all_tasks:
  "loop_tasks (foldl (\<lambda>r doc. start_task r (doc_id doc) (mk (doc_id doc))) reg docs) =
   loop_tasks reg @ map (\<lambda>doc. \<lparr>task_name = doc_id doc, task_coro = mk (doc_id doc), task_done = False\<rparr>) docs"
  by (induction docs arbitrary: reg) (simp_all add: start_task_def)

lemma recover_tasks:
  "loop_tasks (recover_stuck_documents db reg) =
   loop_tasks reg @
   map (\<lambda>doc. \<lparr>task_name = doc_id doc, task_coro = ProcessDocument (doc_id doc), task_done = False\<rparr>)
       (filter stuck_before_llm (db_documents db)) @
   map (\<lambda>doc. \<lparr>task_name = doc_id doc, task_coro = RunLlmStageForDoc (doc_id doc), task_done = False\<rparr>)
       (filter stuck_in_llm (db_documents db))"
proof -
  have 1: "find_documents_by_status db [EXTRACTING, CHUNKING, EMBEDDING] =
      filter stuck_before_llm (db_documents db)"
    by (simp add: find_documents_by_status_def stuck_before_llm_def [abs_def])
  have 2: "find_documents_by_status db [EXTRACTING_CONCEPTS] = filter stuck_in_llm (db_documents db)"
    by (simp add: find_documents_by_status_def stuck_in_llm_def [abs_def])
  show ?thesis
    unfolding recover_stuck_documents_def Let_def 1 2
    by (simp add: start_all_tasks [where mk = ProcessDocument]
        start_all_tasks [where mk = RunLlmStageForDoc])
qed

lemma recover_coros:
  "map task_coro (loop_tasks (recover_stuck_documents db empty_registry)) =
   map (\<lambda>doc. ProcessDocument (doc_id doc)) (filter stuck_before_llm (db_documents db)) @
   map (\<lambda>doc. RunLlmStageForDoc (doc_id doc)) (filter stuck_in_llm (db_documents db))"
  by (simp add: recover_tasks empty_registry_def comp_def)

lemma filter_key_distinct:
  "distinct (map f xs) \<Longrightarrow> x \<in> set xs \<Longrightarrow> filter (\<lambda>y. f y = f x) xs = [x]"
proof (induction xs)
  case Nil
  then show ?case by simp
next
  case (Cons a xs)
  show ?case
  proof (cases "a = x")
    case True
    with Cons.prems(1) have "filter (\<lambda>y. f y = f x) xs = []"
      by (auto simp: filter_empty_conv image_iff)
    with True show ?thesis by simp
  next
    case False
    with Cons.prems have "x \<in> set xs" and "f a \<noteq> f x" by auto
    with Cons.IH Cons.prems(1) show ?thesis by simp
  qed
qed

lemma recover_per_document:
  assumes dist: "distinct (map doc_id (db_documents db))" and doc: "doc \<in> set (db_documents db)"
  shows "map task_coro (tasks_of (recover_stuck_documents db empty_registry) (doc_id doc)) =
         (if stuck_before_llm doc then [ProcessDocument (doc_id doc)]
          else if stuck_in_llm doc then [RunLlmStageForDoc (doc_id doc)] else [])"
proof -
  have one: "filter (\<lambda>x. doc_id x = doc_id doc) (db_documents db) = [doc]"
    using dist doc by (rule filter_key_distinct)
  have f: "\<And>P mk. map task_coro (filter (\<lambda>t. task_name t = doc_id doc)
        (map (\<lambda>x. \<lparr>task_name = doc_id x, task_coro = mk (doc_id x), task_done = False\<rparr>)
             (filter P (db_documents db)))) =
      map (\<lambda>x. mk (doc_id x)) (filter P (filter (\<lambda>x. doc_id x = doc_id doc) (db_documents db)))"
    by (simp add: filter_map comp_def conj_commute)
  have excl: "\<not> (stuck_before_llm doc \<and> stuck_in_llm doc)"
    by (auto simp: stuck_before_llm_def stuck_in_llm_def)
  show ?thesis
    using excl unfolding tasks_of_def recover_tasks empty_registry_def
    by (simp add: f one del: filter_filter)
qed

lemma active_start_task:
  "active_tasks (start_task reg d c) d' =
   active_tasks reg d' @ (if d' = d then [\<lparr>task_name = d, task_coro = c, task_done = False\<rparr>] else [])"
  by (simp add: active_tasks_def start_task_def)

lemma length_filter_conj_le:
  "length (filter (\<lambda>x. P x \<and> Q x) xs) \<le> length (filter P xs)"
  by (induction xs) auto

lemma recover_task_names:
  "t \<in> set (loop_tasks (recover_stuck_documents db empty_registry)) \<Longrightarrow>
   task_name t \<in> doc_id ` set (db_documents db)"
  unfolding recover_tasks empty_registry_def by auto

lemma recover_active_le_one:
  assumes dist: "distinct (map doc_id (db_documents db))"
  shows "length (active_tasks (recover_stuck_documents db empty_registry) d) \<le> 1"
proof (cases "d \<in> doc_id ` set (db_documents db)")
  case True
  then obtain doc where doc: "doc \<in> set (db_documents db)" "d = doc_id doc" by auto
  let ?ts = "loop_tasks (recover_stuck_documents db empty_registry)"
  have "length (active_tasks (recover_stuck_documents db empty_registry) d) \<le>
        length (filter (\<lambda>t. task_name t = doc_id doc) ?ts)"
    unfolding active_tasks_def doc(2) by (rule length_filter_conj_le)
  also have "\<dots> = length (map task_coro (filter (\<lambda>t. task_name t = doc_id doc) ?ts))"
    by simp
  also have "\<dots> \<le> 1"
    unfolding recover_per_document [OF dist doc(1), unfolded tasks_of_def] by simp
  finally show ?thesis .
next
  case False
  have "\<forall>t\<in>set (loop_tasks (recover_stuck_documents db empty_registry)).
          \<not> (task_name t = d \<and> \<not> task_done t)"
    using False recover_task_names by blast
  then have "active_tasks (recover_stuck_documents db empty_registry) d = []"
    unfolding active_tasks_def filter_empty_conv .
  then show ?thesis by simp
qed


section \<open>Status writes of the pipeline\<close>

lemma find_map_status:
  "find (\<lambda>x. doc_id x = d') (map (\<lambda>x. if doc_id x = d then x\<lparr>status := s\<rparr> else x) xs) =
   map_option (\<lambda>x. if doc_id x = d then x\<lparr>status := s\<rparr> else x) (find (\<lambda>x. doc_id x = d') xs)"
  by (induction xs) auto

lemma find_map_concept_count:
  "find (\<lambda>x. doc_id x = d') (map (\<lambda>x. if doc_id x = d then x\<lparr>concept_count := n\<rparr> else x) xs) =
   map_option (\<lambda>x. if doc_id x = d then x\<lparr>concept_count := n\<rparr> else x) (find (\<lambda>x. doc_id x = d') xs)"
  by (induction xs) auto

lemma find_doc_id: "find (\<lambda>x. doc_id x = d) xs = Some doc \<Longrightarrow> doc_id doc = d"
  by (induction xs) (auto split: if_splits)

lemma status_of_set_status:
  "status_of (set_status db d s) d' =
     (if d' = d then map_option (\<lambda>_. s) (status_of db d) else status_of db d')"
proof (cases "find (\<lambda>x. doc_id x = d') (db_documents db)")
  case None
  then show ?thesis
    by (auto simp: status_of_def get_document_def set_status_def find_map_status)
next
  case (Some doc)
  with find_doc_id have "doc_id doc = d'" by fast
  with Some show ?thesis
    by (auto simp: status_of_def get_document_def set_status_def find_map_status)
qed

lemma status_of_set_concept_count:
  "status_of (set_concept_count db d n) d' = status_of db d'"
  by (cases "find (\<lambda>x. doc_id x = d') (db_documents db)")
    (auto simp: status_of_def get_document_def set_concept_count_def find_map_concept_count)

lemma status_of_documents:
  "db_documents db' = db_documents db \<Longrightarrow> status_of db' d = status_of db d"
  by (simp add: status_of_def get_document_def)

lemma insert_chunks_fields:
  "db_documents (insert_chunks u db d cs) = db_documents db"
  "status_log (insert_chunks u db d cs) = status_log db"
  "db_settings (insert_chunks u db d cs) = db_settings db"
  unfolding insert_chunks_def
  by (induction cs arbitrary: db) (simp_all add: insert_chunk_def)

lemma update_chunks_embedding_fields:
  "db_documents (update_chunks_embedding db d) = db_documents db"
  "status_log (update_chunks_embedding db d) = status_log db"
  "db_settings (update_chunks_embedding db d) = db_settings db"
  by (simp_all add: update_chunks_embedding_def)

lemma set_status_fields:
  "status_log (set_status db d s) = status_log db @ [(d, s)]"
  "db_chunks (set_status db d s) = db_chunks db"
  "db_settings (set_status db d s) = db_settings db"
  by (simp_all add: set_status_def)

lemma extract_concepts_fields:
  "status_log (snd (extract_concepts_for_document w db d)) = status_log db"
  "db_chunks (snd (extract_concepts_for_document w db d)) = db_chunks db"
  "status_of (snd (extract_concepts_for_document w db d)) d' = status_of db d'"
  by (auto simp: extract_concepts_for_document_def Let_def set_concept_count_def
      status_of_set_concept_count [unfolded set_concept_count_def]
      split: prod.splits outcome.splits)

lemma generate_flashcards_fields:
  "snd (generate_flashcards_for_document w db d) = db"
  by (simp add: generate_flashcards_for_document_def Let_def)

lemma run_llm_stage_log:
  "status_log (run_llm_stage w db d) =
     status_log db @ [(d, EXTRACTING_CONCEPTS), (d, CONCEPTS_READY)]"
  by (simp add: run_llm_stage_def Let_def set_status_fields extract_concepts_fields
      generate_flashcards_fields)

lemma run_llm_stage_status:
  "status_of (run_llm_stage w db d) d' =
     (if d' = d then map_option (\<lambda>_. CONCEPTS_READY) (status_of db d) else status_of db d')"
  by (simp add: run_llm_stage_def Let_def status_of_set_status extract_concepts_fields
      generate_flashcards_fields option.map_comp comp_def)

lemma run_llm_stage_chunks: "db_chunks (run_llm_stage w db d) = db_chunks db"
  by (simp add: run_llm_stage_def Let_def set_status_fields extract_concepts_fields
      generate_flashcards_fields)

lemma get_document_status_of: "get_document db d = None \<longleftrightarrow> status_of db d = None"
  by (simp add: status_of_def)

lemma process_document_missing:
  assumes "status_of db d = None"
  shows "process_document w db d = set_status db d EXTRACTING"
proof -
  have "status_of (set_status db d EXTRACTING) d = None"
    using assms by (simp add: status_of_set_status)
  then have "get_document (set_status db d EXTRACTING) d = None"
    by (simp add: get_document_status_of)
  then show ?thesis by (simp add: process_document_def Let_def)
qed

lemma process_document_trace:
  assumes ex: "status_of db d \<noteq> None"
  shows "\<exists>ws\<in>pipeline_traces.
           status_log (process_document w db d) = status_log db @ map (Pair d) ws \<and>
           status_of (process_document w db d) d = Some (last ws)"
proof -
  let ?db1 = "set_status db d EXTRACTING"
  have s1: "status_of ?db1 d = Some EXTRACTING"
    using ex by (auto simp: status_of_set_status)
  then obtain doc where doc: "get_document ?db1 d = Some doc"
    by (auto simp: status_of_def)
  have st: "\<And>db' s. status_of db' d \<noteq> None \<Longrightarrow> status_of (set_status db' d s) d = Some s"
    by (auto simp: status_of_set_status)
  show ?thesis
  proof (cases "extract_pdf w d")
    case Raised
    then have p: "process_document w db d = set_status ?db1 d ERROR"
      by (simp add: process_document_def Let_def doc)
    have "[EXTRACTING, ERROR] \<in> pipeline_traces" by (simp add: pipeline_traces_def)
    moreover have "status_log (process_document w db d) = status_log db @ map (Pair d) [EXTRACTING, ERROR]"
      by (simp add: p set_status_fields)
    moreover have "status_of (process_document w db d) d = Some (last [EXTRACTING, ERROR])"
      using s1 by (simp add: p st)
    ultimately show ?thesis by blast
  next
    case (Returned extraction)
    show ?thesis
    proof (cases "ex_needs_ocr extraction")
      case True
      then have p: "process_document w db d = set_status ?db1 d NEEDS_OCR"
        by (simp add: process_document_def Let_def doc Returned)
      have "[EXTRACTING, NEEDS_OCR] \<in> pipeline_traces" by (simp add: pipeline_traces_def)
      moreover have "status_log (process_document w db d) =
          status_log db @ map (Pair d) [EXTRACTING, NEEDS_OCR]"
        by (simp add: p set_status_fields)
      moreover have "status_of (process_document w db d) d = Some (last [EXTRACTING, NEEDS_OCR])"
        using s1 by (simp add: p st)
      ultimately show ?thesis by blast
    next
      case no_ocr: False
      let ?db2 = "set_status ?db1 d CHUNKING"
      let ?cs = "chunk_pages (ex_pages extraction) TARGET_CHARS OVERLAP_CHARS"
      have s2: "status_of ?db2 d = Some CHUNKING" using s1 by (simp add: st)
      show ?thesis
      proof (cases "?cs = []")
        case True
        then have p: "process_document w db d = set_status ?db2 d READY"
          by (simp add: process_document_def Let_def doc Returned no_ocr)
        have "[EXTRACTING, CHUNKING, READY] \<in> pipeline_traces" by (simp add: pipeline_traces_def)
        moreover have "status_log (process_document w db d) =
            status_log db @ map (Pair d) [EXTRACTING, CHUNKING, READY]"
          by (simp add: p set_status_fields)
        moreover have "status_of (process_document w db d) d = Some (last [EXTRACTING, CHUNKING, READY])"
          using s2 by (simp add: p st)
        ultimately show ?thesis by blast
      next
        case some_chunks: False
        let ?db3 = "insert_chunks (uuid4 w) ?db2 d ?cs"
        let ?db4 = "set_status ?db3 d EMBEDDING"
        have s3: "status_of ?db3 d = Some CHUNKING"
          using s2 status_of_documents [OF insert_chunks_fields(1)] by simp
        have s4: "status_of ?db4 d = Some EMBEDDING" using s3 by (simp add: st)
        show ?thesis
        proof (cases "vector_store_up w")
          case False
          then have p: "process_document w db d = set_status ?db4 d ERROR"
            by (simp add: process_document_def Let_def doc Returned no_ocr some_chunks)
          have "[EXTRACTING, CHUNKING, EMBEDDING, ERROR] \<in> pipeline_traces"
            by (simp add: pipeline_traces_def)
          moreover have "status_log (process_document w db d) =
              status_log db @ map (Pair d) [EXTRACTING, CHUNKING, EMBEDDING, ERROR]"
            by (simp add: p set_status_fields insert_chunks_fields)
          moreover have "status_of (process_document w db d) d =
              Some (last [EXTRACTING, CHUNKING, EMBEDDING, ERROR])"
            unfolding p using s4 by (simp add: st)
          ultimately show ?thesis by blast
        next
          case up: True
          let ?db5 = "update_chunks_embedding ?db4 d"
          have s5: "status_of ?db5 d = Some EMBEDDING"
            using s4 status_of_documents [OF update_chunks_embedding_fields(1)] by simp
          show ?thesis
          proof (cases "llm_configured ?db5")
            case True
            then have p: "process_document w db d = run_llm_stage w ?db5 d"
              by (simp add: process_document_def Let_def doc Returned no_ocr some_chunks up)
            have "[EXTRACTING, CHUNKING, EMBEDDING, EXTRACTING_CONCEPTS, CONCEPTS_READY]
                \<in> pipeline_traces"
              by (simp add: pipeline_traces_def)
            moreover have "status_log (process_document w db d) = status_log db @
                map (Pair d) [EXTRACTING, CHUNKING, EMBEDDING, EXTRACTING_CONCEPTS, CONCEPTS_READY]"
              by (simp add: p run_llm_stage_log set_status_fields insert_chunks_fields update_chunks_embedding_fields)
            moreover have "status_of (process_document w db d) d =
                Some (last [EXTRACTING, CHUNKING, EMBEDDING, EXTRACTING_CONCEPTS, CONCEPTS_READY])"
              unfolding p run_llm_stage_status using s5 by simp
            ultimately show ?thesis by blast
          next
            case False
            then have p: "process_document w db d = set_status ?db5 d READY"
              by (simp add: process_document_def Let_def doc Returned no_ocr some_chunks up)
            have "[EXTRACTING, CHUNKING, EMBEDDING, READY] \<in> pipeline_traces"
              by (simp add: pipeline_traces_def)
            moreover have "status_log (process_document w db d) =
                status_log db @ map (Pair d) [EXTRACTING, CHUNKING, EMBEDDING, READY]"
              by (simp add: p set_status_fields insert_chunks_fields update_chunks_embedding_fields)
            moreover have "status_of (process_document w db d) d =
                Some (last [EXTRACTING, CHUNKING, EMBEDDING, READY])"
              unfolding p using s5 by (simp add: st)
            ultimately show ?thesis by blast
          qed
        qed
      qed
    qed
  qed
qed

lemma new_writes_append: "status_log db' = status_log db @ ws \<Longrightarrow> new_writes db db' = ws"
  by (simp add: new_writes_def)

lemma process_document_writes:
  "\<exists>ws\<in>insert [EXTRACTING] pipeline_traces.
      new_writes db (process_document w db d) = map (Pair d) ws"
proof (cases "status_of db d = None")
  case True
  have "new_writes db (process_document w db d) = map (Pair d) [EXTRACTING]"
    by (rule new_writes_append) (simp add: process_document_missing [OF True] set_status_fields)
  then show ?thesis by blast
next
  case False
  from process_document_trace [OF False, of w] obtain ws where
    "ws \<in> pipeline_traces" "status_log (process_document w db d) = status_log db @ map (Pair d) ws"
    by blast
  then show ?thesis using new_writes_append by blast
qed

lemma traces_forward:
  "ws \<in> insert [EXTRACTING] pipeline_traces \<Longrightarrow> successively permitted_step (PENDING # ws)"
  by (auto simp: pipeline_traces_def permitted_step_def forward_def)

lemma traces_start:
  "ws \<in> insert [EXTRACTING] pipeline_traces \<Longrightarrow> take 1 ws = [EXTRACTING]"
  by (auto simp: pipeline_traces_def)

lemma run_llm_stage_for_doc_writes:
  "new_writes db (run_llm_stage_for_doc w db d) =
     (if status_of db d = None then [] else [(d, EXTRACTING_CONCEPTS), (d, CONCEPTS_READY)])"
  by (auto simp: run_llm_stage_for_doc_def new_writes_def run_llm_stage_log status_of_def
      split: option.splits)

lemma run_llm_stage_for_doc_status:
  "status_of db d \<noteq> None \<Longrightarrow> status_of (run_llm_stage_for_doc w db d) d = Some CONCEPTS_READY"
proof -
  assume ex: "status_of db d \<noteq> None"
  then have "run_llm_stage_for_doc w db d = run_llm_stage w db d"
    by (auto simp: run_llm_stage_for_doc_def status_of_def split: option.splits)
  with ex show ?thesis by (auto simp: run_llm_stage_status)
qed

lemma run_llm_stage_for_doc_chunks:
  "db_chunks (run_llm_stage_for_doc w db d) = db_chunks db"
  by (simp add: run_llm_stage_for_doc_def run_llm_stage_chunks split: option.splits)

lemma process_document_llm_stage:
  assumes ex: "status_of db d \<noteq> None"
    and ec: "(d, EXTRACTING_CONCEPTS) \<in> set (new_writes db (process_document w db d))"
  shows "status_of (process_document w db d) d = Some CONCEPTS_READY \<and>
         (d, ERROR) \<notin> set (new_writes db (process_document w db d))"
proof -
  from process_document_trace [OF ex, of w] obtain ws where
    ws: "ws \<in> pipeline_traces"
    and lg: "status_log (process_document w db d) = status_log db @ map (Pair d) ws"
    and fin: "status_of (process_document w db d) d = Some (last ws)"
    by blast
  from lg have nw: "new_writes db (process_document w db d) = map (Pair d) ws"
    by (rule new_writes_append)
  with ec have "EXTRACTING_CONCEPTS \<in> set ws" by auto
  with ws have "ws = [EXTRACTING, CHUNKING, EMBEDDING, EXTRACTING_CONCEPTS, CONCEPTS_READY]"
    by (auto simp: pipeline_traces_def)
  with fin nw show ?thesis by auto
qed

lemmas world_eval = demo_eval failing_world_def flaky_world_def status_of_def get_document_def
  set_status_def set_concept_count_def run_llm_stage_def run_llm_stage_for_doc_def
  run_coro_def new_writes_def llm_configured_def get_setting_def truthy_str_def
  insert_chunks_def insert_chunk_def update_chunks_embedding_def

lemma flaky_chunks: "chunk_pages [\<lparr>pt_page_number = 1, pt_text = [72, 105]\<rparr>] TARGET_CHARS OVERLAP_CHARS =
   [\<lparr>chunk_index = 0, content = [72, 105], page_number = Some 1, char_start = 0, char_end = 3,
     token_count = 0\<rparr>]"
  by (simp add: chunk_eval TARGET_CHARS_def OVERLAP_CHARS_def)

lemma flaky_run_writes: "new_writes demo_db (process_document flaky_world demo_db ''p'') =
   map (Pair ''p'') [EXTRACTING, CHUNKING, EMBEDDING, EXTRACTING_CONCEPTS, CONCEPTS_READY]"
  unfolding process_document_def
  by (simp add: world_eval flaky_chunks [unfolded TARGET_CHARS_def OVERLAP_CHARS_def] TARGET_CHARS_def OVERLAP_CHARS_def)

text \<open>
  C1. The LLM stage writes the status \<open>extracting_concepts\<close> and then
  \<open>concepts_ready\<close>, whatever the two sub-stages do, also when both raise: a document
  that exists has the status \<open>concepts_ready\<close> after the stage, whether the stage is run
  alone, by the recovery of a document stopped in it, or at the end of the full
  pipeline; a run of the full pipeline that reaches the stage never writes \<open>error\<close>.
\<close>

theorem llm_stage_always_concepts_ready:
  "status_log (run_llm_stage w db d) =
     status_log db @ [(d, EXTRACTING_CONCEPTS), (d, CONCEPTS_READY)] \<and>
   (status_of db d \<noteq> None \<longrightarrow>
      status_of (run_llm_stage w db d) d = Some CONCEPTS_READY \<and>
      status_of (run_llm_stage_for_doc w db d) d = Some CONCEPTS_READY) \<and>
   (status_of db d \<noteq> None \<and>
    (d, EXTRACTING_CONCEPTS) \<in> set (new_writes db (process_document w db d)) \<longrightarrow>
      status_of (process_document w db d) d = Some CONCEPTS_READY \<and>
      (d, ERROR) \<notin> set (new_writes db (process_document w db d)))"
  using run_llm_stage_log [of w db d] run_llm_stage_status [of w db d d]
    run_llm_stage_for_doc_status [of db d w] process_document_llm_stage [of db d w]
  by auto

theorem llm_stage_always_concepts_ready_witness:
  "snd (fst (extract_concepts_for_document failing_world
               (set_status demo_db ''d'' EXTRACTING_CONCEPTS) ''d'')) = Raised \<and>
   snd (fst (generate_flashcards_for_document failing_world
               (set_status demo_db ''d'' EXTRACTING_CONCEPTS) ''d'')) = Raised \<and>
   status_of (run_llm_stage failing_world demo_db ''d'') ''d'' = Some CONCEPTS_READY \<and>
   status_of (run_llm_stage_for_doc failing_world demo_db ''d'') ''d'' = Some CONCEPTS_READY \<and>
   status_of (process_document flaky_world demo_db ''p'') ''p'' = Some CONCEPTS_READY"
proof -
  have ex: "status_of demo_db ''d'' \<noteq> None" "status_of demo_db ''p'' \<noteq> None"
    by (simp_all add: world_eval)
  have r1: "snd (fst (extract_concepts_for_document failing_world
               (set_status demo_db ''d'' EXTRACTING_CONCEPTS) ''d'')) = Raised"
    by (simp add: world_eval)
  have r2: "snd (fst (generate_flashcards_for_document failing_world
               (set_status demo_db ''d'' EXTRACTING_CONCEPTS) ''d'')) = Raised"
    by (simp add: world_eval)
  have "new_writes demo_db (process_document flaky_world demo_db ''p'') =
      map (Pair ''p'') [EXTRACTING, CHUNKING, EMBEDDING, EXTRACTING_CONCEPTS, CONCEPTS_READY]"
    by (rule flaky_run_writes)
  then have w: "(''p'', EXTRACTING_CONCEPTS) \<in>
      set (new_writes demo_db (process_document flaky_world demo_db ''p''))"
    by simp
  from llm_stage_always_concepts_ready [of failing_world demo_db "''d''"] ex(1)
  have 1: "status_of (run_llm_stage failing_world demo_db ''d'') ''d'' = Some CONCEPTS_READY"
    and 2: "status_of (run_llm_stage_for_doc failing_world demo_db ''d'') ''d'' = Some CONCEPTS_READY"
    by blast+
  from llm_stage_always_concepts_ready [of flaky_world demo_db "''p''"] ex(2) w
  have 3: "status_of (process_document flaky_world demo_db ''p'') ''p'' = Some CONCEPTS_READY"
    by blast
  from r1 r2 1 2 3 show ?thesis by blast
qed

lemma process_document_first_write:
  "take 1 (new_writes db (process_document w db d)) = [(d, EXTRACTING)]"
proof -
  from process_document_writes [of db w d] obtain ws where
    ws: "ws \<in> insert [EXTRACTING] pipeline_traces"
    and nw: "new_writes db (process_document w db d) = map (Pair d) ws"
    by blast
  from traces_start [OF ws] have "take 1 (map (Pair d) ws) = map (Pair d) [EXTRACTING]"
    unfolding take_map by simp
  with nw show ?thesis by simp
qed

text \<open>
  C2. Started on an empty registry, the recovery sweep reads the stored status only and
  creates exactly these tasks: the full pipeline for every document in \<open>extracting\<close>,
  \<open>chunking\<close> or \<open>embedding\<close>, then the LLM stage alone for every document in
  \<open>extracting_concepts\<close>; with document ids that are distinct (the primary key) each
  such document gets that one task and every other document none. The full pipeline
  starts by writing \<open>extracting\<close>; the LLM stage task writes \<open>extracting_concepts\<close> and
  \<open>concepts_ready\<close> and leaves the chunk rows as they are.
\<close>

theorem recovery_sweep_classifies:
  "map task_coro (loop_tasks (recover_stuck_documents db empty_registry)) =
     map (\<lambda>doc. ProcessDocument (doc_id doc)) (filter stuck_before_llm (db_documents db)) @
     map (\<lambda>doc. RunLlmStageForDoc (doc_id doc)) (filter stuck_in_llm (db_documents db)) \<and>
   (distinct (map doc_id (db_documents db)) \<longrightarrow>
      (\<forall>doc\<in>set (db_documents db).
         map task_coro (tasks_of (recover_stuck_documents db empty_registry) (doc_id doc)) =
         (if stuck_before_llm doc then [ProcessDocument (doc_id doc)]
          else if stuck_in_llm doc then [RunLlmStageForDoc (doc_id doc)] else []))) \<and>
   take 1 (new_writes db (run_coro w db (ProcessDocument d))) = [(d, EXTRACTING)] \<and>
   db_chunks (run_coro w db (RunLlmStageForDoc d)) = db_chunks db \<and>
   new_writes db (run_coro w db (RunLlmStageForDoc d)) =
     (if status_of db d = None then [] else [(d, EXTRACTING_CONCEPTS), (d, CONCEPTS_READY)])"
  using recover_coros [of db] recover_per_document [of db]
    process_document_first_write [of db w d] run_llm_stage_for_doc_chunks [of w db d]
    run_llm_stage_for_doc_writes [of db w d]
  by (simp add: run_coro_def)

lemma demo_recover:
  "loop_tasks (recover_stuck_documents demo_db empty_registry) =
     [\<lparr>task_name = ''e'', task_coro = ProcessDocument ''e'', task_done = False\<rparr>,
      \<lparr>task_name = ''d'', task_coro = RunLlmStageForDoc ''d'', task_done = False\<rparr>]"
  by (simp add: recover_tasks empty_registry_def demo_db_def stuck_before_llm_def stuck_in_llm_def)

theorem recovery_sweep_classifies_witness:
  "map task_coro (tasks_of (recover_stuck_documents demo_db empty_registry) ''e'') = [ProcessDocument ''e''] \<and>
   map task_coro (tasks_of (recover_stuck_documents demo_db empty_registry) ''d'') = [RunLlmStageForDoc ''d''] \<and>
   map task_coro (tasks_of (recover_stuck_documents demo_db empty_registry) ''f'') = []"
proof -
  have dist: "distinct (map doc_id (db_documents demo_db))"
    by (simp add: demo_db_def)
  have docs: "\<lparr>doc_id = ''e'', status = EMBEDDING, concept_count = 0\<rparr> \<in> set (db_documents demo_db)"
    "\<lparr>doc_id = ''d'', status = EXTRACTING_CONCEPTS, concept_count = 0\<rparr> \<in> set (db_documents demo_db)"
    "\<lparr>doc_id = ''f'', status = READY, concept_count = 0\<rparr> \<in> set (db_documents demo_db)"
    by (simp_all add: demo_db_def)
  note T = recovery_sweep_classifies [of demo_db demo_world "''d''"]
  from T dist have per: "\<forall>doc\<in>set (db_documents demo_db).
         map task_coro (tasks_of (recover_stuck_documents demo_db empty_registry) (doc_id doc)) =
         (if stuck_before_llm doc then [ProcessDocument (doc_id doc)]
          else if stuck_in_llm doc then [RunLlmStageForDoc (doc_id doc)] else [])"
    by blast
  from per docs(1) have 1: "map task_coro (tasks_of (recover_stuck_documents demo_db empty_registry) ''e'') = [ProcessDocument ''e'']"
    by (force simp: stuck_before_llm_def)
  from per docs(2) have 2: "map task_coro (tasks_of (recover_stuck_documents demo_db empty_registry) ''d'') = [RunLlmStageForDoc ''d'']"
    by (force simp: stuck_before_llm_def stuck_in_llm_def)
  from per docs(3) have 3: "map task_coro (tasks_of (recover_stuck_documents demo_db empty_registry) ''f'') = []"
    by (force simp: stuck_before_llm_def stuck_in_llm_def)
  from 1 2 3 show ?thesis by blast
qed

text \<open>
  C3 as stated: a second start for a document id whose execution is still active is
  claimed to be rejected or ignored. \<open>start_task\<close> has no such check: after two starts
  for \<open>d\<close> two executions are active, and when the first one ends its callback removes
  the registry entry of the second, which is still active and no longer reported by
  \<open>is_processing\<close>.
\<close>

theorem double_start_counterexample:
  "length (active_tasks
     (start_task (start_task empty_registry ''d'' (ProcessDocument ''d'')) ''d''
        (ProcessDocument ''d'')) ''d'') = 2 \<and>
   length (active_tasks
     (finish_task (start_task (start_task empty_registry ''d'' (ProcessDocument ''d'')) ''d''
        (ProcessDocument ''d'')) 0) ''d'') = 1 \<and>
   \<not> is_processing
     (finish_task (start_task (start_task empty_registry ''d'' (ProcessDocument ''d'')) ''d''
        (ProcessDocument ''d'')) 0) ''d''"
  by (simp add: active_tasks_def start_task_def finish_task_def empty_registry_def
      is_processing_def)

text \<open>
  C3 amended. \<open>start_task\<close> never rejects or ignores a start: every call adds one active
  execution for the document id and makes the registry entry of that id point to the
  new task. At most one execution per id is active as long as the callers start an id
  once; the recovery sweep, started on an empty registry over documents with distinct
  ids, starts at most one task per document id.
\<close>

theorem start_task_registers:
  "length (active_tasks (start_task reg d c) d) = length (active_tasks reg d) + 1 \<and>
   get_task (start_task reg d c) d = Some (length (loop_tasks reg)) \<and>
   task_coro (loop_tasks (start_task reg d c) ! length (loop_tasks reg)) = c \<and>
   (distinct (map doc_id (db_documents db)) \<longrightarrow>
      length (active_tasks (recover_stuck_documents db empty_registry) d') \<le> 1)"
proof -
  have 1: "length (active_tasks (start_task reg d c) d) = length (active_tasks reg d) + 1"
    by (simp add: active_start_task)
  have 2: "get_task (start_task reg d c) d = Some (length (loop_tasks reg))"
    and 3: "task_coro (loop_tasks (start_task reg d c) ! length (loop_tasks reg)) = c"
    by (simp_all add: get_task_def start_task_def)
  from 1 2 3 recover_active_le_one [of db d'] show ?thesis by blast
qed

theorem start_task_registers_witness:
  "length (active_tasks (recover_stuck_documents demo_db empty_registry) ''d'') \<le> 1 \<and>
   length (active_tasks (recover_stuck_documents demo_db empty_registry) ''d'') = 1"
proof -
  have dist: "distinct (map doc_id (db_documents demo_db))"
    by (simp add: demo_db_def)
  from start_task_registers [of empty_registry "''d''" "ProcessDocument ''d''" demo_db "''d''"] dist
  have "length (active_tasks (recover_stuck_documents demo_db empty_registry) ''d'') \<le> 1"
    by blast
  moreover have "length (active_tasks (recover_stuck_documents demo_db empty_registry) ''d'') = 1"
    by (simp add: active_tasks_def demo_recover)
  ultimately show ?thesis by blast
qed

text \<open>
  C4 as stated: the stored status is claimed never to move backwards under pipeline
  and recovery operations. Document \<open>e\<close> of the example store is in \<open>embedding\<close>; the
  recovery sweep starts the full pipeline for it, which writes \<open>extracting\<close>,
  \<open>chunking\<close> and \<open>ready\<close>: the step from \<open>embedding\<close> to \<open>extracting\<close> is backwards and
  is not a step to \<open>error\<close>.
\<close>

theorem status_regress_counterexample:
  "status_of demo_db ''e'' = Some EMBEDDING \<and>
   map task_coro (loop_tasks (recover_stuck_documents demo_db empty_registry)) =
     [ProcessDocument ''e'', RunLlmStageForDoc ''d''] \<and>
   new_writes demo_db (run_coro demo_world demo_db (ProcessDocument ''e'')) =
     [(''e'', EXTRACTING), (''e'', CHUNKING), (''e'', READY)] \<and>
   \<not> successively claimed_step
       (EMBEDDING # map snd (new_writes demo_db (run_coro demo_world demo_db (ProcessDocument ''e''))))"
proof -
  have 1: "status_of demo_db ''e'' = Some EMBEDDING"
    by (simp add: world_eval)
  have 2: "map task_coro (loop_tasks (recover_stuck_documents demo_db empty_registry)) =
     [ProcessDocument ''e'', RunLlmStageForDoc ''d'']"
    by (simp add: demo_recover)
  have c: "chunk_pages [] TARGET_CHARS OVERLAP_CHARS = []"
    by (simp add: chunk_pages_def)
  have 3: "new_writes demo_db (run_coro demo_world demo_db (ProcessDocument ''e'')) =
     [(''e'', EXTRACTING), (''e'', CHUNKING), (''e'', READY)]"
    unfolding run_coro_def process_document_def by (simp add: world_eval c)
  have 4: "\<not> successively claimed_step [EMBEDDING, EXTRACTING, CHUNKING, READY]"
    by (simp add: claimed_step_def forward_def)
  from 1 2 3 4 show ?thesis by simp
qed

text \<open>
  C4 amended. Inside one execution the status never moves backwards: a run of the full
  pipeline writes \<open>extracting\<close> first and after it only later stages of the order
  pending, extracting, chunking, embedding, extracting_concepts, concepts_ready, ready,
  or \<open>needs_ocr\<close>, or \<open>error\<close>; the LLM stage run by the recovery writes
  \<open>extracting_concepts\<close> and \<open>concepts_ready\<close>; both write the status of their own
  document only. Because every run of the full pipeline starts by writing
  \<open>extracting\<close>, the full restart made by the recovery sweep is the one place where a
  status moves backwards, from \<open>chunking\<close> or \<open>embedding\<close> to \<open>extracting\<close>.
\<close>

theorem status_forward_within_run:
  "successively permitted_step (PENDING # map snd (new_writes db (process_document w db d))) \<and>
   successively permitted_step
     (EXTRACTING_CONCEPTS # map snd (new_writes db (run_llm_stage_for_doc w db d))) \<and>
   take 1 (new_writes db (process_document w db d)) = [(d, EXTRACTING)] \<and>
   map fst (new_writes db (process_document w db d)) =
     replicate (length (new_writes db (process_document w db d))) d \<and>
   map fst (new_writes db (run_llm_stage_for_doc w db d)) =
     replicate (length (new_writes db (run_llm_stage_for_doc w db d))) d"
proof -
  from process_document_writes [of db w d] obtain ws where
    ws: "ws \<in> insert [EXTRACTING] pipeline_traces"
    and nw: "new_writes db (process_document w db d) = map (Pair d) ws"
    by blast
  have sn: "map snd (map (Pair d) ws) = ws" and fs: "map fst (map (Pair d) ws) = replicate (length ws) d"
    by (simp_all add: comp_def map_replicate_const)
  have 1: "successively permitted_step (PENDING # map snd (new_writes db (process_document w db d)))"
    unfolding nw sn using ws by (rule traces_forward)
  have 2: "successively permitted_step
     (EXTRACTING_CONCEPTS # map snd (new_writes db (run_llm_stage_for_doc w db d)))"
    by (simp add: run_llm_stage_for_doc_writes permitted_step_def forward_def)
  have 3: "map fst (new_writes db (process_document w db d)) =
     replicate (length (new_writes db (process_document w db d))) d"
    unfolding nw fs by simp
  have 4: "map fst (new_writes db (run_llm_stage_for_doc w db d)) =
     replicate (length (new_writes db (run_llm_stage_for_doc w db d))) d"
    by (simp add: run_llm_stage_for_doc_writes)
  from 1 2 3 4 process_document_first_write [of db w d] show ?thesis by blast
qed

end
